theory Spec2Isabelle
  imports Main "HOL-Library.AList"
begin

section \<open>Python values and errors\<close>

text \<open>
  The simulator is Python. Integers are unbounded (\<open>int\<close>), \<open>None\<close> is the \<open>None\<close> of
  \<open>option\<close>, and every exception the interpreter can raise in the modelled code is a
  value of \<open>error\<close>. A call that raises yields \<open>Inl\<close> of the error and no state: an
  exception aborts the run.
\<close>

datatype error = ValueError | IndexError | KeyError | ZeroDivisionError | TypeError

text \<open>
  \<open>xs[i]\<close> on a list of length \<open>n\<close>: indices \<open>0 .. n-1\<close> address from the front,
  \<open>-n .. -1\<close> from the back, anything else raises IndexError.
\<close>

definition py_index :: "nat \<Rightarrow> int \<Rightarrow> nat option" where
  "py_index n i =
     (if 0 \<le> i \<and> i < int n then Some (nat i)
      else if - int n \<le> i \<and> i < 0 then Some (nat (int n + i))
      else None)"

text \<open>\<open>xs.index(x)\<close>: position of the first occurrence.\<close>

fun py_list_index :: "'a \<Rightarrow> 'a list \<Rightarrow> nat option" where
  "py_list_index x [] = None"
| "py_list_index x (y # ys) =
     (if x = y then Some 0 else map_option Suc (py_list_index x ys))"

text \<open>
  \<open>min(xs)\<close> and \<open>min(xs, key=f)\<close>: the first element that is minimal; \<open>None\<close> stands for
  the ValueError on an empty sequence.
\<close>

fun py_min :: "int list \<Rightarrow> int option" where
  "py_min [] = None"
| "py_min (x # xs) = Some (fold min xs x)"

fun py_min_by :: "('a \<Rightarrow> int) \<Rightarrow> 'a list \<Rightarrow> 'a option" where
  "py_min_by f [] = None"
| "py_min_by f (x # xs) =
     Some (fold (\<lambda>y best. if f y < f best then y else best) xs x)"

text \<open>
  A \<open>dict\<close> whose iteration order matters is an association list in insertion order with
  distinct keys: \<open>map_of\<close> reads, \<open>AList.update\<close> assigns (in place when the key is
  present, at the end otherwise), \<open>AList.delete\<close> removes.
\<close>

section \<open>page\_table.py\<close>

record PageTableEntry =
  valid :: bool
  frame_number :: "int option"
  referenced :: bool
  modified :: bool
  last_access_time :: int
  access_count :: int

definition new_entry :: PageTableEntry where
  "new_entry = \<lparr>valid = False, frame_number = None, referenced = False,
                modified = False, last_access_time = 0, access_count = 0\<rparr>"

record PageTable =
  pt_num_pages :: int
  entries :: "PageTableEntry list"

definition new_page_table :: "int \<Rightarrow> PageTable" where
  "new_page_table n = \<lparr>pt_num_pages = n, entries = replicate (nat n) new_entry\<rparr>"

definition get_entry :: "PageTable \<Rightarrow> int \<Rightarrow> error + PageTableEntry" where
  "get_entry pt page_number =
     (if page_number \<ge> pt_num_pages pt then Inl ValueError
      else (case py_index (length (entries pt)) page_number of
              None \<Rightarrow> Inl IndexError
            | Some i \<Rightarrow> Inr (entries pt ! i)))"

definition is_valid :: "PageTable \<Rightarrow> int \<Rightarrow> error + bool" where
  "is_valid pt page_number =
     (case py_index (length (entries pt)) page_number of
        None \<Rightarrow> Inl IndexError
      | Some i \<Rightarrow> Inr (valid (entries pt ! i)))"

definition get_frame_number :: "PageTable \<Rightarrow> int \<Rightarrow> error + int option" where
  "get_frame_number pt page_number =
     (case is_valid pt page_number of
        Inl e \<Rightarrow> Inl e
      | Inr v \<Rightarrow>
          if \<not> v then Inr None
          else (case py_index (length (entries pt)) page_number of
                  None \<Rightarrow> Inl IndexError
                | Some i \<Rightarrow> Inr (frame_number (entries pt ! i))))"

definition set_frame :: "PageTable \<Rightarrow> int \<Rightarrow> int option \<Rightarrow> error + PageTable" where
  "set_frame pt page_number fr =
     (case py_index (length (entries pt)) page_number of
        None \<Rightarrow> Inl IndexError
      | Some i \<Rightarrow>
          Inr (pt\<lparr>entries := (entries pt)
                 [i := (entries pt ! i)\<lparr>valid := True, frame_number := fr\<rparr>]\<rparr>))"

definition pt_invalidate :: "PageTable \<Rightarrow> int \<Rightarrow> error + PageTable" where
  "pt_invalidate pt page_number =
     (case py_index (length (entries pt)) page_number of
        None \<Rightarrow> Inl IndexError
      | Some i \<Rightarrow>
          Inr (pt\<lparr>entries := (entries pt)
                 [i := (entries pt ! i)\<lparr>valid := False, frame_number := None\<rparr>]\<rparr>))"

definition update_access :: "PageTable \<Rightarrow> int \<Rightarrow> int \<Rightarrow> bool \<Rightarrow> error + PageTable" where
  "update_access pt page_number time is_write =
     (case py_index (length (entries pt)) page_number of
        None \<Rightarrow> Inl IndexError
      | Some i \<Rightarrow>
          let entry = entries pt ! i;
              entry1 = entry\<lparr>referenced := True, last_access_time := time,
                             access_count := access_count entry + 1\<rparr>;
              entry2 = (if is_write then entry1\<lparr>modified := True\<rparr> else entry1)
          in Inr (pt\<lparr>entries := (entries pt)[i := entry2]\<rparr>))"

section \<open>The TLB\<close>

text \<open>
  The cache is an \<open>OrderedDict\<close> from page to frame, oldest entry first. The stored
  frame is whatever the caller passed to \<open>insert\<close>, so its type is \<open>int option\<close>;
  \<open>lookup\<close> returns the stored value, or \<open>None\<close> on a miss.
\<close>

record TLB =
  tlb_size :: int
  cache :: "(int \<times> int option) list"
  hits :: int
  misses :: int

definition new_tlb :: "int \<Rightarrow> TLB" where
  "new_tlb n = \<lparr>tlb_size = n, cache = [], hits = 0, misses = 0\<rparr>"

definition tlb_lookup :: "TLB \<Rightarrow> int \<Rightarrow> int option \<times> TLB" where
  "tlb_lookup t page_number =
     (case map_of (cache t) page_number of
        Some fr \<Rightarrow>
          (fr, t\<lparr>hits := hits t + 1,
                 cache := AList.delete page_number (cache t) @ [(page_number, fr)]\<rparr>)
      | None \<Rightarrow> (None, t\<lparr>misses := misses t + 1\<rparr>))"

definition tlb_insert :: "TLB \<Rightarrow> int \<Rightarrow> int option \<Rightarrow> error + TLB" where
  "tlb_insert t page_number fr =
     (case map_of (cache t) page_number of
        Some old \<Rightarrow>
          Inr (t\<lparr>cache := AList.delete page_number (cache t) @ [(page_number, old)]\<rparr>)
      | None \<Rightarrow>
          if int (length (cache t)) \<ge> tlb_size t then
            (case cache t of
               [] \<Rightarrow> Inl KeyError
             | _ # rest \<Rightarrow> Inr (t\<lparr>cache := rest @ [(page_number, fr)]\<rparr>))
          else Inr (t\<lparr>cache := cache t @ [(page_number, fr)]\<rparr>))"

definition tlb_invalidate :: "TLB \<Rightarrow> int \<Rightarrow> TLB" where
  "tlb_invalidate t page_number =
     (if map_of (cache t) page_number \<noteq> None
      then t\<lparr>cache := AList.delete page_number (cache t)\<rparr> else t)"

section \<open>replacement\_algorithms.py\<close>

text \<open>
  The base class holds \<open>num_frames\<close> and \<open>frames\<close>; each policy extends it.
  \<open>access_page\<close> returns the new policy state with the pair (page fault, victim).
\<close>

record PageReplacementAlgorithm =
  num_frames :: int
  frames :: "int list"

subsection \<open>FIFO\<close>

record fifo_state = PageReplacementAlgorithm +
  queue :: "int list"

definition fifo_get_victim :: "fifo_state \<Rightarrow> error + int" where
  "fifo_get_victim s = (case queue s of [] \<Rightarrow> Inl IndexError | v # _ \<Rightarrow> Inr v)"

definition fifo_access_page ::
  "fifo_state \<Rightarrow> int \<Rightarrow> int \<Rightarrow> bool \<Rightarrow> error + (fifo_state \<times> bool \<times> int option)" where
  "fifo_access_page s page_number time is_write =
     (if page_number \<in> set (frames s) then Inr (s, False, None)
      else
        (case (if int (length (frames s)) \<ge> num_frames s then
                (case fifo_get_victim s of
                   Inl e \<Rightarrow> Inl e
                 | Inr victim \<Rightarrow>
                     if victim \<notin> set (frames s) then Inl ValueError
                     else if victim \<notin> set (queue s) then Inl ValueError
                     else Inr (s\<lparr>frames := remove1 victim (frames s),
                                 queue := remove1 victim (queue s)\<rparr>, Some victim))
              else Inr (s, None)) of
          Inl e \<Rightarrow> Inl e
        | Inr (s1, victim) \<Rightarrow>
            Inr (s1\<lparr>frames := frames s1 @ [page_number],
                    queue := queue s1 @ [page_number]\<rparr>, True, victim)))"

subsection \<open>LRU\<close>

record lru_state = PageReplacementAlgorithm +
  access_times :: "(int \<times> int) list"

text \<open>
  \<open>min(self.access_times, key=self.access_times.get)\<close> walks the keys in insertion
  order and compares the value stored with each.
\<close>

definition lru_get_victim :: "lru_state \<Rightarrow> error + int" where
  "lru_get_victim s =
     (case py_min_by snd (access_times s) of
        None \<Rightarrow> Inl ValueError
      | Some kv \<Rightarrow> Inr (fst kv))"

definition lru_access_page ::
  "lru_state \<Rightarrow> int \<Rightarrow> int \<Rightarrow> bool \<Rightarrow> error + (lru_state \<times> bool \<times> int option)" where
  "lru_access_page s page_number time is_write =
     (let page_fault = (page_number \<notin> set (frames s)) in
      case (if page_fault then
              (case (if int (length (frames s)) \<ge> num_frames s then
                       (case lru_get_victim s of
                          Inl e \<Rightarrow> Inl e
                        | Inr victim \<Rightarrow>
                            if victim \<notin> set (frames s) then Inl ValueError
                            else Inr (s\<lparr>frames := remove1 victim (frames s),
                                        access_times := AList.delete victim (access_times s)\<rparr>,
                                      Some victim))
                     else Inr (s, None)) of
                 Inl e \<Rightarrow> Inl e
               | Inr (s1, victim) \<Rightarrow>
                   Inr (s1\<lparr>frames := frames s1 @ [page_number]\<rparr>, victim))
            else Inr (s, None)) of
        Inl e \<Rightarrow> Inl e
      | Inr (s2, victim) \<Rightarrow>
          Inr (s2\<lparr>access_times := AList.update page_number time (access_times s2)\<rparr>,
               page_fault, victim))"

subsection \<open>LFU\<close>

record lfu_state = PageReplacementAlgorithm +
  access_counts :: "(int \<times> int) list"
  lfu_access_times :: "(int \<times> int) list"

definition lfu_get_victim :: "lfu_state \<Rightarrow> error + int" where
  "lfu_get_victim s =
     (case py_min (map snd (access_counts s)) of
        None \<Rightarrow> Inl ValueError
      | Some min_count \<Rightarrow>
          let candidates =
                map fst (filter (\<lambda>(p, count). count = min_count) (access_counts s))
          in if length candidates = 1 then Inr (hd candidates)
             else if \<exists>p \<in> set candidates. map_of (lfu_access_times s) p = None
               then Inl KeyError
             else (case py_min_by (\<lambda>p. the (map_of (lfu_access_times s) p)) candidates of
                     None \<Rightarrow> Inl ValueError
                   | Some v \<Rightarrow> Inr v))"

definition lfu_access_page ::
  "lfu_state \<Rightarrow> int \<Rightarrow> int \<Rightarrow> bool \<Rightarrow> error + (lfu_state \<times> bool \<times> int option)" where
  "lfu_access_page s page_number time is_write =
     (let page_fault = (page_number \<notin> set (frames s)) in
      case (if page_fault then
              (case (if int (length (frames s)) \<ge> num_frames s then
                       (case lfu_get_victim s of
                          Inl e \<Rightarrow> Inl e
                        | Inr victim \<Rightarrow>
                            if victim \<notin> set (frames s) then Inl ValueError
                            else if map_of (lfu_access_times s) victim = None then Inl KeyError
                            else Inr (s\<lparr>frames := remove1 victim (frames s),
                                        access_counts := AList.delete victim (access_counts s),
                                        lfu_access_times :=
                                          AList.delete victim (lfu_access_times s)\<rparr>,
                                      Some victim))
                     else Inr (s, None)) of
                 Inl e \<Rightarrow> Inl e
               | Inr (s1, victim) \<Rightarrow>
                   Inr (s1\<lparr>frames := frames s1 @ [page_number],
                           access_counts := AList.update page_number 0 (access_counts s1)\<rparr>,
                        victim))
            else Inr (s, None)) of
        Inl e \<Rightarrow> Inl e
      | Inr (s2, victim) \<Rightarrow>
          (case map_of (access_counts s2) page_number of
             None \<Rightarrow> Inl KeyError
           | Some c \<Rightarrow>
               Inr (s2\<lparr>access_counts := AList.update page_number (c + 1) (access_counts s2),
                       lfu_access_times :=
                         AList.update page_number time (lfu_access_times s2)\<rparr>,
                    page_fault, victim)))"

subsection \<open>Optimal\<close>

record optimal_state = PageReplacementAlgorithm +
  reference_string :: "int list"
  current_index :: int

text \<open>
  \<open>next_use\<close> is an index into the reference string or \<open>float('inf')\<close>;
  \<open>use_gt a b\<close> is Python's \<open>a > b\<close> on such values.
\<close>

datatype next_use = Finite int | Infinity

fun use_gt :: "next_use \<Rightarrow> next_use \<Rightarrow> bool" where
  "use_gt (Finite a) (Finite b) = (a > b)"
| "use_gt Infinity (Finite b) = True"
| "use_gt _ Infinity = False"

text \<open>The inner loop over \<open>range(current_index, len(reference_string))\<close>.\<close>

fun find_next_use :: "int list \<Rightarrow> int \<Rightarrow> int list \<Rightarrow> error + next_use" where
  "find_next_use rs page [] = Inr Infinity"
| "find_next_use rs page (i # is) =
     (case py_index (length rs) i of
        None \<Rightarrow> Inl IndexError
      | Some j \<Rightarrow> if rs ! j = page then Inr (Finite i) else find_next_use rs page is)"

text \<open>The outer loop over \<open>self.frames\<close>, carrying \<open>farthest_use\<close> and \<open>victim\<close>.\<close>

fun optimal_scan ::
  "optimal_state \<Rightarrow> int list \<Rightarrow> next_use \<Rightarrow> int option \<Rightarrow> error + int option" where
  "optimal_scan s [] farthest_use victim = Inr victim"
| "optimal_scan s (page # rest) farthest_use victim =
     (case find_next_use (reference_string s) page
             [current_index s .. int (length (reference_string s)) - 1] of
        Inl e \<Rightarrow> Inl e
      | Inr nu \<Rightarrow>
          if use_gt nu farthest_use then optimal_scan s rest nu (Some page)
          else optimal_scan s rest farthest_use victim)"

definition optimal_get_victim :: "optimal_state \<Rightarrow> error + int option" where
  "optimal_get_victim s = optimal_scan s (frames s) (Finite (- 1)) None"

definition optimal_access_page ::
  "optimal_state \<Rightarrow> int \<Rightarrow> int \<Rightarrow> bool \<Rightarrow> error + (optimal_state \<times> bool \<times> int option)" where
  "optimal_access_page s page_number time is_write =
     (let page_fault = (page_number \<notin> set (frames s)) in
      case (if page_fault then
              (case (if int (length (frames s)) \<ge> num_frames s then
                       (case optimal_get_victim s of
                          Inl e \<Rightarrow> Inl e
                        | Inr None \<Rightarrow> Inl ValueError
                        | Inr (Some victim) \<Rightarrow>
                            if victim \<notin> set (frames s) then Inl ValueError
                            else Inr (s\<lparr>frames := remove1 victim (frames s)\<rparr>, Some victim))
                     else Inr (s, None)) of
                 Inl e \<Rightarrow> Inl e
               | Inr (s1, victim) \<Rightarrow>
                   Inr (s1\<lparr>frames := frames s1 @ [page_number]\<rparr>, victim))
            else Inr (s, None)) of
        Inl e \<Rightarrow> Inl e
      | Inr (s2, victim) \<Rightarrow>
          Inr (s2\<lparr>current_index := current_index s2 + 1\<rparr>, page_fault, victim))"

subsection \<open>Clock\<close>

record clock_state = PageReplacementAlgorithm +
  reference_bits :: "(int \<times> int) list"
  clock_hand :: int

text \<open>
  The \<open>while True\<close> loop of \<open>get_victim\<close>. An iteration that does not return or raise
  turns one non-zero reference bit into 0, so the number of non-zero bits is a measure.
\<close>

definition nonzero_bits :: "(int \<times> int) list \<Rightarrow> nat" where
  "nonzero_bits bits = length (filter (\<lambda>kv. snd kv \<noteq> 0) bits)"

function clock_get_victim :: "clock_state \<Rightarrow> error + (int \<times> clock_state)" where
  "clock_get_victim s =
     (case py_index (length (frames s)) (clock_hand s) of
        None \<Rightarrow> Inl IndexError
      | Some i \<Rightarrow>
          (case map_of (reference_bits s) (frames s ! i) of
             None \<Rightarrow> Inl KeyError
           | Some b \<Rightarrow>
               if b = 0 then
                 Inr (frames s ! i,
                      s\<lparr>clock_hand := (clock_hand s + 1) mod int (length (frames s))\<rparr>)
               else
                 clock_get_victim
                   (s\<lparr>reference_bits := AList.update (frames s ! i) 0 (reference_bits s),
                      clock_hand := (clock_hand s + 1) mod int (length (frames s))\<rparr>)))"
  by pat_completeness auto
termination
proof (relation "measure (\<lambda>s. nonzero_bits (reference_bits s))")
  show "wf (measure (\<lambda>s. nonzero_bits (reference_bits s)))"
    by simp
next
  fix s :: clock_state and i :: nat and b :: int
  assume look: "map_of (reference_bits s) (frames s ! i) = Some b" and nz: "b \<noteq> 0"
  have clear: "map_of bits k = Some c \<Longrightarrow> c \<noteq> 0 \<Longrightarrow>
      nonzero_bits (AList.update k 0 bits) < nonzero_bits bits"
    for bits :: "(int \<times> int) list" and k c
    by (induction bits) (auto simp: nonzero_bits_def split: if_splits)
  from clear [OF look nz]
  show "(s\<lparr>reference_bits := AList.update (frames s ! i) 0 (reference_bits s),
            clock_hand := (clock_hand s + 1) mod int (length (frames s))\<rparr>, s)
        \<in> measure (\<lambda>s. nonzero_bits (reference_bits s))"
    by simp
qed

declare clock_get_victim.simps [simp del]

definition clock_access_page ::
  "clock_state \<Rightarrow> int \<Rightarrow> int \<Rightarrow> bool \<Rightarrow> error + (clock_state \<times> bool \<times> int option)" where
  "clock_access_page s page_number time is_write =
     (let page_fault = (page_number \<notin> set (frames s)) in
      case (if page_fault then
              (if int (length (frames s)) \<ge> num_frames s then
                 (case clock_get_victim s of
                    Inl e \<Rightarrow> Inl e
                  | Inr (victim, s1) \<Rightarrow>
                      (case py_list_index victim (frames s1) of
                         None \<Rightarrow> Inl ValueError
                       | Some victim_index \<Rightarrow>
                           if map_of (reference_bits s1) victim = None then Inl KeyError
                           else Inr (s1\<lparr>frames := (frames s1)[victim_index := page_number],
                                        reference_bits :=
                                          AList.delete victim (reference_bits s1)\<rparr>,
                                     Some victim)))
               else Inr (s\<lparr>frames := frames s @ [page_number]\<rparr>, None))
            else Inr (s, None)) of
        Inl e \<Rightarrow> Inl e
      | Inr (s2, victim) \<Rightarrow>
          Inr (s2\<lparr>reference_bits := AList.update page_number 1 (reference_bits s2)\<rparr>,
               page_fault, victim))"

subsection \<open>The policy as a tagged union\<close>

datatype algorithm =
    FIFO fifo_state
  | LRU lru_state
  | LFU lfu_state
  | Optimal optimal_state
  | Clock clock_state

fun access_page ::
  "algorithm \<Rightarrow> int \<Rightarrow> int \<Rightarrow> bool \<Rightarrow> error + (algorithm \<times> bool \<times> int option)" where
  "access_page (FIFO s) p t w = map_sum id (map_prod FIFO id) (fifo_access_page s p t w)"
| "access_page (LRU s) p t w = map_sum id (map_prod LRU id) (lru_access_page s p t w)"
| "access_page (LFU s) p t w = map_sum id (map_prod LFU id) (lfu_access_page s p t w)"
| "access_page (Optimal s) p t w =
     map_sum id (map_prod Optimal id) (optimal_access_page s p t w)"
| "access_page (Clock s) p t w = map_sum id (map_prod Clock id) (clock_access_page s p t w)"

fun frames_of :: "algorithm \<Rightarrow> int list" where
  "frames_of (FIFO s) = frames s"
| "frames_of (LRU s) = frames s"
| "frames_of (LFU s) = frames s"
| "frames_of (Optimal s) = frames s"
| "frames_of (Clock s) = frames s"

definition is_page_in_memory :: "algorithm \<Rightarrow> int \<Rightarrow> bool" where
  "is_page_in_memory a page_number = (page_number \<in> set (frames_of a))"

section \<open>virtual\_memory.py\<close>

record VirtualMemorySimulator =
  sim_num_pages :: int
  sim_num_frames :: int
  page_size :: int
  page_table :: PageTable
  tlb :: TLB
  algorithm :: algorithm
  algorithm_name :: string
  page_faults :: int
  memory_accesses :: int
  tlb_hits :: int
  tlb_misses :: int
  current_time :: int
  free_frames :: "int list"
  page_to_frame :: "int \<rightharpoonup> int"

text \<open>The \<open>if/elif\<close> chain of the constructor that builds the policy.\<close>

definition make_algorithm :: "string \<Rightarrow> int \<Rightarrow> int list option \<Rightarrow> error + algorithm" where
  "make_algorithm name n rs =
     (if name = ''FIFO'' then
        Inr (FIFO \<lparr>num_frames = n, frames = [], queue = []\<rparr>)
      else if name = ''LRU'' then
        Inr (LRU \<lparr>num_frames = n, frames = [], access_times = []\<rparr>)
      else if name = ''LFU'' then
        Inr (LFU \<lparr>num_frames = n, frames = [], access_counts = [], lfu_access_times = []\<rparr>)
      else if name = ''Optimal'' then
        (case rs of
           None \<Rightarrow> Inl ValueError
         | Some r \<Rightarrow>
             Inr (Optimal \<lparr>num_frames = n, frames = [], reference_string = r,
                            current_index = 0\<rparr>))
      else if name = ''Clock'' then
        Inr (Clock \<lparr>num_frames = n, frames = [], reference_bits = [], clock_hand = 0\<rparr>)
      else Inl ValueError)"

definition init ::
  "int \<Rightarrow> int \<Rightarrow> int \<Rightarrow> int \<Rightarrow> string \<Rightarrow> int list option \<Rightarrow> error + VirtualMemorySimulator" where
  "init n_pages n_frames p_size t_size name rs =
     (case make_algorithm name n_frames rs of
        Inl e \<Rightarrow> Inl e
      | Inr alg \<Rightarrow>
          Inr \<lparr>sim_num_pages = n_pages, sim_num_frames = n_frames, page_size = p_size,
               page_table = new_page_table n_pages, tlb = new_tlb t_size,
               algorithm = alg, algorithm_name = name,
               page_faults = 0, memory_accesses = 0, tlb_hits = 0, tlb_misses = 0,
               current_time = 0,
               free_frames = [0 .. n_frames - 1], page_to_frame = Map.empty\<rparr>)"

definition handle_page_fault ::
  "VirtualMemorySimulator \<Rightarrow> int \<Rightarrow> bool \<Rightarrow> error + (VirtualMemorySimulator \<times> int)" where
  "handle_page_fault s page_number is_write =
     (case access_page (algorithm s) page_number (current_time s) is_write of
        Inl e \<Rightarrow> Inl e
      | Inr (alg, fault_occurred, victim_page) \<Rightarrow>
          (case (case victim_page of
                   Some victim \<Rightarrow>
                     (case page_to_frame s victim of
                        None \<Rightarrow> Inl KeyError
                      | Some fr \<Rightarrow>
                          (case pt_invalidate (page_table s) victim of
                             Inl e \<Rightarrow> Inl e
                           | Inr pt \<Rightarrow>
                               Inr (s\<lparr>algorithm := alg, page_table := pt,
                                       tlb := tlb_invalidate (tlb s) victim,
                                       page_to_frame := (page_to_frame s)(victim := None)\<rparr>,
                                    fr)))
                 | None \<Rightarrow>
                     (case free_frames s of
                        [] \<Rightarrow> Inl IndexError
                      | fr # rest \<Rightarrow> Inr (s\<lparr>algorithm := alg, free_frames := rest\<rparr>, fr))) of
             Inl e \<Rightarrow> Inl e
           | Inr (s1, fr) \<Rightarrow>
               (case set_frame (page_table s1) page_number (Some fr) of
                  Inl e \<Rightarrow> Inl e
                | Inr pt \<Rightarrow>
                    Inr (s1\<lparr>page_table := pt,
                            page_to_frame := (page_to_frame s1)(page_number \<mapsto> fr)\<rparr>,
                         fr))))"

text \<open>
  \<open>translate_address\<close> returns the new simulator and the triple
  (physical address, page fault, TLB hit).
\<close>

definition translate_address ::
  "VirtualMemorySimulator \<Rightarrow> int \<Rightarrow> bool \<Rightarrow>
   error + (VirtualMemorySimulator \<times> int \<times> bool \<times> bool)" where
  "translate_address s0 virtual_address is_write =
     (let s = s0\<lparr>memory_accesses := memory_accesses s0 + 1,
                   current_time := current_time s0 + 1\<rparr>
      in if page_size s = 0 then Inl ZeroDivisionError
         else
           let page_number = virtual_address div page_size s;
               offset = virtual_address mod page_size s;
               (frame_number, t) = tlb_lookup (tlb s) page_number;
               s1 = s\<lparr>tlb := t\<rparr>;
               tlb_hit = (frame_number \<noteq> None)
           in case (if \<not> tlb_hit then
                      (case is_valid (page_table s1) page_number of
                         Inl e \<Rightarrow> Inl e
                       | Inr v \<Rightarrow>
                           (case (if \<not> v then
                                    (case handle_page_fault
                                            (s1\<lparr>page_faults := page_faults s1 + 1\<rparr>)
                                            page_number is_write of
                                       Inl e \<Rightarrow> Inl e
                                     | Inr (s2, fr) \<Rightarrow> Inr (s2, Some fr, True))
                                  else
                                    (case get_frame_number (page_table s1) page_number of
                                       Inl e \<Rightarrow> Inl e
                                     | Inr fr \<Rightarrow> Inr (s1, fr, False))) of
                              Inl e \<Rightarrow> Inl e
                            | Inr (s2, fr, page_fault) \<Rightarrow>
                                (case tlb_insert (tlb s2) page_number fr of
                                   Inl e \<Rightarrow> Inl e
                                 | Inr t2 \<Rightarrow> Inr (s2\<lparr>tlb := t2\<rparr>, fr, page_fault))))
                    else Inr (s1, frame_number, False)) of
                Inl e \<Rightarrow> Inl e
              | Inr (s3, fr, page_fault) \<Rightarrow>
                  (case update_access (page_table s3) page_number (current_time s3) is_write of
                     Inl e \<Rightarrow> Inl e
                   | Inr pt \<Rightarrow>
                       (case fr of
                          None \<Rightarrow> Inl TypeError
                        | Some f \<Rightarrow>
                            Inr (s3\<lparr>page_table := pt\<rparr>,
                                 f * page_size s3 + offset, page_fault, tlb_hit))))"

text \<open>
  \<open>run_trace\<close>: the loop over \<open>enumerate(reference_string)\<close>, with the index carried
  along; \<open>write_operations\<close> defaults to the empty set.
\<close>

fun run_trace_from ::
  "nat \<Rightarrow> VirtualMemorySimulator \<Rightarrow> int list \<Rightarrow> nat set \<Rightarrow> error + VirtualMemorySimulator" where
  "run_trace_from i s [] write_operations = Inr s"
| "run_trace_from i s (page_number # rest) write_operations =
     (case translate_address s (page_number * page_size s) (i \<in> write_operations) of
        Inl e \<Rightarrow> Inl e
      | Inr (s', _) \<Rightarrow> run_trace_from (Suc i) s' rest write_operations)"

definition run_trace ::
  "VirtualMemorySimulator \<Rightarrow> int list \<Rightarrow> nat set option \<Rightarrow> error + VirtualMemorySimulator" where
  "run_trace s rs write_operations =
     run_trace_from 0 s rs (case write_operations of None \<Rightarrow> {} | Some w \<Rightarrow> w)"

section \<open>Runs, invariants and examples\<close>

text \<open>
  The number of page faults the statistics report after a fresh simulator has replayed
  a trace: construct, \<open>run_trace\<close>, read \<open>page_faults\<close>.
\<close>

definition fault_count ::
  "int \<Rightarrow> int \<Rightarrow> int \<Rightarrow> int \<Rightarrow> string \<Rightarrow> int list option \<Rightarrow> int list \<Rightarrow> error + int" where
  "fault_count n_pages n_frames p_size t_size name rs trace =
     (case init n_pages n_frames p_size t_size name rs of
        Inl e \<Rightarrow> Inl e
      | Inr s \<Rightarrow>
          (case run_trace s trace None of
             Inl e \<Rightarrow> Inl e
           | Inr s' \<Rightarrow> Inr (page_faults s')))"

text \<open>A sequence of \<open>translate_address\<close> calls on one simulator; it stops at the first exception.\<close>

fun translate_all ::
  "VirtualMemorySimulator \<Rightarrow> (int \<times> bool) list \<Rightarrow> error + VirtualMemorySimulator" where
  "translate_all s [] = Inr s"
| "translate_all s ((va, w) # rest) =
     (case translate_address s va w of
        Inl e \<Rightarrow> Inl e
      | Inr (s', _) \<Rightarrow> translate_all s' rest)"

text \<open>A fresh simulator followed by a sequence of calls.\<close>

definition after_calls ::
  "int \<Rightarrow> int \<Rightarrow> int \<Rightarrow> int \<Rightarrow> string \<Rightarrow> int list option \<Rightarrow> (int \<times> bool) list \<Rightarrow>
   error + VirtualMemorySimulator" where
  "after_calls n_pages n_frames p_size t_size name rs calls =
     (case init n_pages n_frames p_size t_size name rs of
        Inl e \<Rightarrow> Inl e
      | Inr s \<Rightarrow> translate_all s calls)"

text \<open>
  What one call of \<open>access_page\<close> may do to the resident list \<open>frames\<close>: it reports a
  fault exactly for a page that is not resident; on a fault it admits the page, after
  removing the victim if it names one; without a fault it leaves the list alone.
\<close>

definition policy_step :: "int list \<Rightarrow> int \<Rightarrow> bool \<Rightarrow> int option \<Rightarrow> int list \<Rightarrow> bool" where
  "policy_step fr p fault victim fr' =
     (fault = (p \<notin> set fr) \<and> distinct fr' \<and>
      (if fault then
         (case victim of
            None \<Rightarrow> set fr' = insert p (set fr)
          | Some v \<Rightarrow> v \<in> set fr \<and> set fr' = insert p (set fr - {v}))
       else victim = None \<and> fr' = fr))"

text \<open>
  The page table's view of residency for a page in \<open>[0, num_pages)\<close>, and the
  consistency of the four places that record it: the page table, the TLB cache, the
  policy's \<open>frames\<close> and the simulator's \<open>page_to_frame\<close>.
\<close>

definition resident :: "PageTable \<Rightarrow> int \<Rightarrow> bool" where
  "resident pt p = (0 \<le> p \<and> p < int (length (entries pt)) \<and> valid (entries pt ! nat p))"

definition frame_at :: "PageTable \<Rightarrow> int \<Rightarrow> int option" where
  "frame_at pt p = frame_number (entries pt ! nat p)"

definition consistent ::
  "PageTable \<Rightarrow> (int \<times> int option) list \<Rightarrow> int list \<Rightarrow> (int \<rightharpoonup> int) \<Rightarrow> bool" where
  "consistent pt c fr m =
     (distinct (map fst c) \<and>
      (\<forall>p f. (p, f) \<in> set c \<longrightarrow> resident pt p \<and> f \<noteq> None \<and> frame_at pt p = f) \<and>
      distinct fr \<and>
      (\<forall>p. (p \<in> set fr) = resident pt p) \<and>
      (\<forall>p. resident pt p \<longrightarrow> frame_at pt p \<noteq> None \<and> m p = frame_at pt p) \<and>
      (\<forall>p. m p \<noteq> None \<longrightarrow> p \<in> set fr))"

definition sim_inv :: "VirtualMemorySimulator \<Rightarrow> bool" where
  "sim_inv s =
     (consistent (page_table s) (cache (tlb s)) (frames_of (algorithm s)) (page_to_frame s) \<and>
      length (entries (page_table s)) = nat (sim_num_pages s))"

text \<open>
  The LFU policy on its own: the state its constructor builds, a sequence of
  \<open>access_page\<close> calls (page, time, write flag) that stops at the first exception, and
  the data-model invariant that the pages tracked by \<open>access_counts\<close> and
  \<open>access_times\<close> are exactly the resident ones, each once.
\<close>

definition lfu_new :: "int \<Rightarrow> lfu_state" where
  "lfu_new n = \<lparr>num_frames = n, frames = [], access_counts = [], lfu_access_times = []\<rparr>"

fun lfu_run :: "lfu_state \<Rightarrow> (int \<times> int \<times> bool) list \<Rightarrow> error + lfu_state" where
  "lfu_run s [] = Inr s"
| "lfu_run s ((page_number, time, is_write) # rest) =
     (case lfu_access_page s page_number time is_write of
        Inl e \<Rightarrow> Inl e
      | Inr (s', _) \<Rightarrow> lfu_run s' rest)"

definition lfu_wf :: "lfu_state \<Rightarrow> bool" where
  "lfu_wf s =
     (distinct (frames s) \<and>
      distinct (map fst (access_counts s)) \<and>
      distinct (map fst (lfu_access_times s)) \<and>
      fst ` set (access_counts s) = set (frames s) \<and>
      fst ` set (lfu_access_times s) = set (frames s))"

text \<open>
  A state of the LFU policy with three resident pages: page 1 was used twice, pages 2 and
  3 once each, page 2 longer ago than page 3. It is reached from the constructor by
  accessing page 1 at time 1, page 2 at time 3, page 3 at time 4 and page 1 at time 5.
\<close>

definition lfu_example :: lfu_state where
  "lfu_example =
     \<lparr>num_frames = 3, frames = [1, 2, 3],
      access_counts = [(1, 2), (2, 1), (3, 1)],
      lfu_access_times = [(1, 5), (2, 3), (3, 4)]\<rparr>"

text \<open>
  The loop of \<open>Clock.get_victim\<close> cut off after a number of iterations: \<open>None\<close> when
  the loop has neither returned nor raised within that many iterations.
\<close>

fun clock_get_victim_within ::
  "nat \<Rightarrow> clock_state \<Rightarrow> (error + (int \<times> clock_state)) option" where
  "clock_get_victim_within 0 s = None"
| "clock_get_victim_within (Suc k) s =
     (case py_index (length (frames s)) (clock_hand s) of
        None \<Rightarrow> Some (Inl IndexError)
      | Some i \<Rightarrow>
          (case map_of (reference_bits s) (frames s ! i) of
             None \<Rightarrow> Some (Inl KeyError)
           | Some b \<Rightarrow>
               if b = 0 then
                 Some (Inr (frames s ! i,
                            s\<lparr>clock_hand := (clock_hand s + 1) mod int (length (frames s))\<rparr>))
               else
                 clock_get_victim_within k
                   (s\<lparr>reference_bits := AList.update (frames s ! i) 0 (reference_bits s),
                      clock_hand := (clock_hand s + 1) mod int (length (frames s))\<rparr>)))"

text \<open>A state of the Clock policy with three resident pages, every reference bit set.\<close>

definition clock_example :: clock_state where
  "clock_example =
     \<lparr>num_frames = 3, frames = [1, 2, 3],
      reference_bits = [(1, 1), (2, 1), (3, 1)], clock_hand = 0\<rparr>"

text \<open>
  FIFO on its own, as the simulator drives it: the resident pages in arrival order, and
  the number of faults a trace causes from there with \<open>n\<close> frames. \<open>fifo_rel\<close> ties a
  simulator to such a queue.
\<close>

fun fifo_faults :: "int \<Rightarrow> int list \<Rightarrow> int list \<Rightarrow> int" where
  "fifo_faults n q [] = 0"
| "fifo_faults n q (p # ps) =
     (if p \<in> set q then fifo_faults n q ps
      else 1 + fifo_faults n (if n \<le> int (length q) then tl q @ [p] else q @ [p]) ps)"

definition fifo_rel :: "VirtualMemorySimulator \<Rightarrow> int \<Rightarrow> int list \<Rightarrow> bool" where
  "fifo_rel s n q =
     (sim_inv s \<and> algorithm s = FIFO \<lparr>num_frames = n, frames = q, queue = q\<rparr> \<and>
      1 \<le> n \<and> int (length q) + int (length (free_frames s)) = n \<and>
      1 \<le> tlb_size (tlb s) \<and> page_size s \<noteq> 0)"

text \<open>
  Observations on a simulator: whether the page table reports a page valid; the three
  records of a page's residency (\<open>page_to_frame\<close>, the policy's \<open>frames\<close>, the page
  table); and what the next call of \<open>translate_address\<close> returns.
\<close>

definition page_valid_in :: "int \<Rightarrow> VirtualMemorySimulator \<Rightarrow> error + bool" where
  "page_valid_in p s = is_valid (page_table s) p"

definition residency ::
  "int \<Rightarrow> VirtualMemorySimulator \<Rightarrow> int option \<times> bool \<times> (error + bool)" where
  "residency p s =
     (page_to_frame s p, is_page_in_memory (algorithm s) p, is_valid (page_table s) p)"

definition next_outcome ::
  "int \<Rightarrow> bool \<Rightarrow> VirtualMemorySimulator \<Rightarrow> error + (int \<times> bool \<times> bool)" where
  "next_outcome va w s = map_sum id snd (translate_address s va w)"

section \<open>Properties\<close>

subsection \<open>Frame lemmas\<close>

lemma handle_page_fault_page_size:
  "handle_page_fault s p w = Inr (s', fr) \<Longrightarrow> page_size s' = page_size s"
  unfolding handle_page_fault_def
  by (auto split: sum.splits prod.splits option.splits list.splits)

lemma sum_result_cases:
  "map_sum id snd r = Inr y \<Longrightarrow> \<exists>s. r = Inr (s, y)"
  by (cases r) auto

lemma not_isl_result: "\<not> isl r \<Longrightarrow> \<exists>x. r = Inr x"
  by (cases r) auto

subsection \<open>Construction\<close>

text \<open>
  C4 (as stated): construction fails whenever the policy is Optimal without a reference
  string, or \<open>numFrames > numPages\<close>, or a size parameter is non-positive. The
  constructor checks no size: with 3 frames for 2 pages, and with every size 0 or
  negative, it returns a simulator.
\<close>

theorem init_accepts_unchecked_sizes:
  "\<not> isl (init 2 3 4096 4 ''FIFO'' None) \<and> \<not> isl (init 0 0 0 (- 1) ''LRU'' None)"
  by (simp add: init_def make_algorithm_def)

text \<open>
  C4 (amended): construction raises ValueError exactly when the policy name is Optimal
  and no reference string is supplied, or the name is none of the five policies; with any
  other parameters, whatever the sizes, it succeeds.
\<close>

theorem init_fails_iff:
  "(init n_pages n_frames p_size t_size name rs = Inl ValueError) =
     ((name = ''Optimal'' \<and> rs = None) \<or>
      name \<notin> {''FIFO'', ''LRU'', ''LFU'', ''Optimal'', ''Clock''})
   \<and> (\<exists>s. init n_pages n_frames p_size t_size name rs = Inr s) =
     (\<not> ((name = ''Optimal'' \<and> rs = None) \<or>
      name \<notin> {''FIFO'', ''LRU'', ''LFU'', ''Optimal'', ''Clock''}))"
  by (auto simp: init_def make_algorithm_def split: sum.splits option.splits if_splits)

theorem init_fails_iff_witness:
  "init 10 3 4096 4 ''Optimal'' None = Inl ValueError
   \<and> init 10 3 4096 4 ''Random'' None = Inl ValueError
   \<and> (\<exists>s. init 10 3 4096 4 ''Optimal'' (Some [1, 2]) = Inr s)
   \<and> (\<exists>s. init 3 10 0 (- 1) ''FIFO'' None = Inr s)"
  using init_fails_iff [of 10 3 4096 4 "''Optimal''" None]
        init_fails_iff [of 10 3 4096 4 "''Random''" None]
        init_fails_iff [of 10 3 4096 4 "''Optimal''" "Some [1, 2]"]
        init_fails_iff [of 3 10 0 "- 1" "''FIFO''" None]
  by simp

subsection \<open>Optimal against FIFO on a fixed trace\<close>

text \<open>
  C2: the Optimal policy should fault no more often than any other policy on the same
  trace and frame count. The simulator calls \<open>access_page\<close> only on a page fault, so
  Optimal's cursor counts faults, not references, and its look-ahead starts in the past:
  with 2 frames on 1,2,1,2,1,2,3,2,3,2,3,2 it faults 6 times where FIFO faults 3 times.
\<close>

theorem optimal_exceeds_fifo:
  "fault_count 10 2 4096 4 ''Optimal'' (Some [1,2,1,2,1,2,3,2,3,2,3,2])
       [1,2,1,2,1,2,3,2,3,2,3,2] = Inr 6
   \<and> fault_count 10 2 4096 4 ''FIFO'' None [1,2,1,2,1,2,3,2,3,2,3,2] = Inr 3"
  by code_simp

subsection \<open>Address arithmetic and the policy's frame\<close>

text \<open>
  C8: whenever \<open>translate_address\<close> returns, the physical address has the offset of the
  virtual address: both are equal modulo the page size.
\<close>

theorem offset_preserved:
  "translate_address s va w = Inr (s', pa, fault, hit) \<Longrightarrow>
   pa mod page_size s = va mod page_size s"
  unfolding translate_address_def Let_def
  by (auto split: if_splits sum.splits prod.splits option.splits
           dest!: handle_page_fault_page_size)

theorem offset_preserved_witness:
  "\<exists>s s'. init 100 10 4096 4 ''FIFO'' None = Inr s
     \<and> translate_address s 8200 False = Inr (s', 8, True, False)
     \<and> (8::int) mod page_size s = 8200 mod page_size s"
proof -
  obtain s where s: "init 100 10 4096 4 ''FIFO'' None = Inr s"
    by (simp add: init_def make_algorithm_def)
  have "map_sum id snd
          (case init 100 10 4096 4 ''FIFO'' None of Inl e \<Rightarrow> Inl e
           | Inr s \<Rightarrow> translate_address s 8200 False) = Inr (8, True, False)"
    by code_simp
  with s obtain s' where r: "translate_address s 8200 False = Inr (s', 8, True, False)"
    using sum_result_cases by fastforce
  from offset_preserved [OF r] s r show ?thesis
    by blast
qed

text \<open>
  C9: a call of \<open>translate_address\<close> that returns without a page fault (a TLB hit, or a
  TLB miss on a valid page-table entry) leaves the replacement policy's whole state as it
  was: \<open>access_page\<close> is reached only through the page-fault handler.
\<close>

theorem policy_untouched_without_fault:
  "translate_address s va w = Inr (s', pa, False, hit) \<Longrightarrow> algorithm s' = algorithm s"
  unfolding translate_address_def Let_def
  by (auto split: if_splits sum.splits prod.splits option.splits)

theorem policy_untouched_without_fault_witness:
  "\<exists>s s' s''. init 100 10 4096 4 ''LRU'' None = Inr s
     \<and> translate_all s [(8192, False)] = Inr s'
     \<and> translate_address s' 8200 True = Inr (s'', 8, False, True)
     \<and> algorithm s'' = algorithm s'"
proof -
  obtain s where s: "init 100 10 4096 4 ''LRU'' None = Inr s"
    by (simp add: init_def make_algorithm_def)
  have "\<not> isl (case init 100 10 4096 4 ''LRU'' None of Inl e \<Rightarrow> Inl e
           | Inr s \<Rightarrow> translate_all s [(8192, False)])"
    by code_simp
  with s obtain s' where s': "translate_all s [(8192, False)] = Inr s'"
    using not_isl_result by fastforce
  have "map_sum id snd
          (case init 100 10 4096 4 ''LRU'' None of Inl e \<Rightarrow> Inl e
           | Inr s \<Rightarrow> (case translate_all s [(8192, False)] of Inl e \<Rightarrow> Inl e
               | Inr s' \<Rightarrow> translate_address s' 8200 True)) = Inr (8, False, True)"
    by code_simp
  with s s' obtain s'' where r: "translate_address s' 8200 True = Inr (s'', 8, False, True)"
    using sum_result_cases by fastforce
  from policy_untouched_without_fault [OF r] s s' r show ?thesis
    by blast
qed

subsection \<open>The resident list under each policy\<close>

lemma fifo_step:
  "fifo_access_page s p t w = Inr (s', fault, victim) \<Longrightarrow> distinct (frames s) \<Longrightarrow>
   policy_step (frames s) p fault victim (frames s')"
  unfolding fifo_access_page_def policy_step_def
  by (auto split: if_splits sum.splits)

lemma lru_step:
  "lru_access_page s p t w = Inr (s', fault, victim) \<Longrightarrow> distinct (frames s) \<Longrightarrow>
   policy_step (frames s) p fault victim (frames s')"
  unfolding lru_access_page_def policy_step_def Let_def
  by (auto split: if_splits sum.splits)

lemma lfu_step:
  "lfu_access_page s p t w = Inr (s', fault, victim) \<Longrightarrow> distinct (frames s) \<Longrightarrow>
   policy_step (frames s) p fault victim (frames s')"
  unfolding lfu_access_page_def policy_step_def Let_def
  by (auto split: if_splits sum.splits option.splits)

lemma optimal_step:
  "optimal_access_page s p t w = Inr (s', fault, victim) \<Longrightarrow> distinct (frames s) \<Longrightarrow>
   policy_step (frames s) p fault victim (frames s')"
  unfolding optimal_access_page_def policy_step_def Let_def
  by (auto split: if_splits sum.splits option.splits)

lemma py_index_Some: "py_index n i = Some j \<Longrightarrow> j < n"
  by (auto simp: py_index_def split: if_splits)

lemma clock_get_victim_frames:
  "clock_get_victim s = Inr (v, s') \<Longrightarrow> frames s' = frames s \<and> v \<in> set (frames s)"
proof (induction s rule: clock_get_victim.induct)
  case (1 s)
  from "1.prems" obtain i b where
    i: "py_index (length (frames s)) (clock_hand s) = Some i" and
    b: "map_of (reference_bits s) (frames s ! i) = Some b"
    by (subst (asm) clock_get_victim.simps) (auto split: option.splits)
  from i have il: "i < length (frames s)" by (rule py_index_Some)
  show ?case
  proof (cases "b = 0")
    case True
    with "1.prems" i b il show ?thesis
      by (subst (asm) clock_get_victim.simps) auto
  next
    case False
    with "1.prems" i b have
      "clock_get_victim
         (s\<lparr>reference_bits := AList.update (frames s ! i) 0 (reference_bits s),
            clock_hand := (clock_hand s + 1) mod int (length (frames s))\<rparr>) = Inr (v, s')"
      by (subst (asm) clock_get_victim.simps) auto
    from "1.IH" [OF i b False this] show ?thesis by simp
  qed
qed

lemma py_list_index_Some:
  "py_list_index x xs = Some i \<Longrightarrow> i < length xs \<and> xs ! i = x"
  by (induction xs arbitrary: i) (auto split: if_splits)

lemma replace_at:
  "distinct fr \<Longrightarrow> p \<notin> set fr \<Longrightarrow> i < length fr \<Longrightarrow>
   distinct (fr[i := p]) \<and> set (fr[i := p]) = insert p (set fr - {fr ! i})"
  by (auto simp: distinct_list_update set_update_distinct)

lemma clock_step:
  "clock_access_page s p t w = Inr (s', fault, victim) \<Longrightarrow> distinct (frames s) \<Longrightarrow>
   policy_step (frames s) p fault victim (frames s')"
  unfolding clock_access_page_def policy_step_def Let_def
  by (auto split: if_splits sum.splits option.splits prod.splits
      dest!: clock_get_victim_frames py_list_index_Some simp: replace_at)

lemma access_page_step:
  "access_page a p t w = Inr (a', fault, victim) \<Longrightarrow> distinct (frames_of a) \<Longrightarrow>
   policy_step (frames_of a) p fault victim (frames_of a')"
proof (cases a)
  case (FIFO x)
  then show "access_page a p t w = Inr (a', fault, victim) \<Longrightarrow> distinct (frames_of a) \<Longrightarrow> ?thesis"
    by (cases "fifo_access_page x p t w") (auto simp: fifo_step)
next
  case (LRU x)
  then show "access_page a p t w = Inr (a', fault, victim) \<Longrightarrow> distinct (frames_of a) \<Longrightarrow> ?thesis"
    by (cases "lru_access_page x p t w") (auto simp: lru_step)
next
  case (LFU x)
  then show "access_page a p t w = Inr (a', fault, victim) \<Longrightarrow> distinct (frames_of a) \<Longrightarrow> ?thesis"
    by (cases "lfu_access_page x p t w") (auto simp: lfu_step)
next
  case (Optimal x)
  then show "access_page a p t w = Inr (a', fault, victim) \<Longrightarrow> distinct (frames_of a) \<Longrightarrow> ?thesis"
    by (cases "optimal_access_page x p t w") (auto simp: optimal_step)
next
  case (Clock x)
  then show "access_page a p t w = Inr (a', fault, victim) \<Longrightarrow> distinct (frames_of a) \<Longrightarrow> ?thesis"
    by (cases "clock_access_page x p t w") (auto simp: clock_step)
qed

subsection \<open>Consistency of page table, TLB, policy and frame map\<close>

lemma update_access_view:
  "update_access pt p t w = Inr pt' \<Longrightarrow>
   resident pt' q = resident pt q \<and> frame_at pt' q = frame_at pt q \<and>
   length (entries pt') = length (entries pt)"
proof -
  assume u: "update_access pt p t w = Inr pt'"
  then obtain i where i: "py_index (length (entries pt)) p = Some i"
    by (auto simp: update_access_def split: option.splits)
  then have il: "i < length (entries pt)" by (rule py_index_Some)
  from u i have e: "entries pt' = (entries pt)[i :=
      (if w then (entries pt ! i)\<lparr>referenced := True, last_access_time := t,
                   access_count := access_count (entries pt ! i) + 1, modified := True\<rparr>
       else (entries pt ! i)\<lparr>referenced := True, last_access_time := t,
                   access_count := access_count (entries pt ! i) + 1\<rparr>)]"
    by (auto simp: update_access_def Let_def)
  show ?thesis
    using il by (cases "nat q = i") (auto simp: e resident_def frame_at_def)
qed

lemma set_frame_view:
  assumes "set_frame pt p f = Inr pt'" and "0 \<le> p"
  shows "length (entries pt') = length (entries pt)"
    and "resident pt' p" and "frame_at pt' p = f"
    and "\<And>q. 0 \<le> q \<Longrightarrow> q \<noteq> p \<Longrightarrow> resident pt' q = resident pt q \<and> frame_at pt' q = frame_at pt q"
    and "\<And>q. q < 0 \<Longrightarrow> \<not> resident pt' q"
  using assms
  by (auto simp: set_frame_def resident_def frame_at_def py_index_def split: if_splits)

lemma pt_invalidate_view:
  assumes "pt_invalidate pt p = Inr pt'" and "0 \<le> p"
  shows "length (entries pt') = length (entries pt)"
    and "\<not> resident pt' p"
    and "\<And>q. 0 \<le> q \<Longrightarrow> q \<noteq> p \<Longrightarrow> resident pt' q = resident pt q \<and> frame_at pt' q = frame_at pt q"
    and "\<And>q. q < 0 \<Longrightarrow> \<not> resident pt' q"
  using assms
  by (auto simp: pt_invalidate_def resident_def frame_at_def py_index_def split: if_splits)


lemma update_access_consistent:
  assumes u: "update_access pt p t w = Inr pt'" and c: "consistent pt c fr m"
  shows "consistent pt' c fr m"
proof -
  have v: "\<And>q. resident pt' q = resident pt q" "\<And>q. frame_at pt' q = frame_at pt q"
    using update_access_view [OF u] by auto
  from c show ?thesis
    unfolding consistent_def v .
qed

lemma set_delete_alist: "set (AList.delete k al) = {kv \<in> set al. fst kv \<noteq> k}"
  by (auto simp: AList.delete_eq)

lemma lookup_hit_consistent:
  assumes "consistent pt c fr m" and "map_of c p = Some f"
  shows "consistent pt (AList.delete p c @ [(p, f)]) fr m"
proof -
  from assms(2) have in_c: "(p, f) \<in> set c" by (rule map_of_SomeD)
  from assms(1) have d: "distinct (map fst c)"
    and e: "\<And>q g. (q, g) \<in> set c \<Longrightarrow> resident pt q \<and> g \<noteq> None \<and> frame_at pt q = g"
    unfolding consistent_def by blast+
  have d': "distinct (map fst (AList.delete p c @ [(p, f)]))"
    using d by (simp add: distinct_delete delete_notin_dom)
  have e': "\<And>q g. (q, g) \<in> set (AList.delete p c @ [(p, f)]) \<Longrightarrow>
                resident pt q \<and> g \<noteq> None \<and> frame_at pt q = g"
    using e in_c by (auto simp: set_delete_alist)
  from assms(1) d' e' show ?thesis
    unfolding consistent_def by blast
qed


lemma tlb_insert_cache:
  assumes "map_of (cache t) p = None" and "tlb_insert t p f = Inr t'"
  shows "(\<exists>x rest. cache t = x # rest \<and> cache t' = rest @ [(p, f)]) \<or>
         cache t' = cache t @ [(p, f)]"
  using assms by (auto simp: tlb_insert_def split: if_splits list.splits)

lemma tlb_insert_consistent:
  assumes c: "consistent pt (cache t) fr m" and miss: "map_of (cache t) p = None"
    and ins: "tlb_insert t p f = Inr t'"
    and r: "resident pt p" and f: "f \<noteq> None" and fa: "frame_at pt p = f"
  shows "consistent pt (cache t') fr m \<and> map_of (cache t') p = Some f"
proof -
  from miss have notin: "p \<notin> fst ` set (cache t)"
    by (simp add: map_of_eq_None_iff)
  from c have d: "distinct (map fst (cache t))"
    and e: "\<And>q g. (q, g) \<in> set (cache t) \<Longrightarrow> resident pt q \<and> g \<noteq> None \<and> frame_at pt q = g"
    unfolding consistent_def by blast+
  have "\<exists>c0. cache t' = c0 @ [(p, f)] \<and> set c0 \<subseteq> set (cache t) \<and>
          distinct (map fst c0)"
    using tlb_insert_cache [OF miss ins] d by auto
  then obtain c0 where c': "cache t' = c0 @ [(p, f)]" and sub: "set c0 \<subseteq> set (cache t)"
    and d0: "distinct (map fst c0)"
    by blast
  from sub notin have notin0: "p \<notin> fst ` set c0" by auto
  have d': "distinct (map fst (cache t'))"
    using d0 notin0 by (simp add: c')
  have e': "\<And>q g. (q, g) \<in> set (cache t') \<Longrightarrow>
                resident pt q \<and> g \<noteq> None \<and> frame_at pt q = g"
    using e sub r f fa by (auto simp: c')
  from notin0 have "map_of c0 p = None"
    by (simp add: map_of_eq_None_iff)
  then have look: "map_of (cache t') p = Some f"
    by (simp add: c' map_add_def)
  from c d' e' look show ?thesis
    unfolding consistent_def by blast
qed

lemma cache_tlb_invalidate: "cache (tlb_invalidate t v) = AList.delete v (cache t)"
  by (auto simp: tlb_invalidate_def map_of_eq_None_iff)

lemma evict_consistent:
  assumes c: "consistent pt c fr m"
    and st: "policy_step fr p True (Some v) fr'"
    and inv: "pt_invalidate pt v = Inr pt1"
    and sf: "set_frame pt1 p (Some f0) = Inr pt2"
    and p0: "0 \<le> p"
    and miss: "map_of c p = None"
  shows "consistent pt2 (AList.delete v c) fr' (m(v := None, p \<mapsto> f0)) \<and>
         resident pt2 p \<and> frame_at pt2 p = Some f0 \<and>
         map_of (AList.delete v c) p = None \<and>
         length (entries pt2) = length (entries pt)"
proof -
  from st have pn: "p \<notin> set fr" and dfr: "distinct fr'" and vin: "v \<in> set fr"
    and sfr: "set fr' = insert p (set fr - {v})"
    by (auto simp: policy_step_def)
  from c have d: "distinct (map fst c)"
    and e: "\<And>q g. (q, g) \<in> set c \<Longrightarrow> resident pt q \<and> g \<noteq> None \<and> frame_at pt q = g"
    and fr_res: "\<And>q. (q \<in> set fr) = resident pt q"
    and res_m: "\<And>q. resident pt q \<Longrightarrow> frame_at pt q \<noteq> None \<and> m q = frame_at pt q"
    and m_fr: "\<And>q. m q \<noteq> None \<Longrightarrow> q \<in> set fr"
    unfolding consistent_def by blast+
  from vin fr_res have "resident pt v" by simp
  then have v0: "0 \<le> v" by (simp add: resident_def)
  from vin pn have vp: "v \<noteq> p" by auto
  note i = pt_invalidate_view [OF inv v0]
  note f = set_frame_view [OF sf p0]
  have neg: "\<And>q. q < 0 \<Longrightarrow> \<not> resident pt q" by (simp add: resident_def)
  have R: "resident pt2 q = (q = p \<or> (q \<noteq> v \<and> resident pt q))" for q
  proof (cases "q < 0")
    case True
    with f(5) neg p0 show ?thesis by auto
  next
    case False
    then have q0: "0 \<le> q" by simp
    show ?thesis
      using f(2) f(4) [OF q0] i(2) i(3) [OF q0] vp by (cases "q = p"; cases "q = v") auto
  qed
  have F: "frame_at pt2 q = frame_at pt q" if "0 \<le> q" "q \<noteq> p" "q \<noteq> v" for q
    using f(4) [OF that(1,2)] i(3) [OF that(1,3)] by simp
  have d': "distinct (map fst (AList.delete v c))"
    using d by (rule distinct_delete)
  from miss have pnc: "p \<notin> fst ` set c" by (simp add: map_of_eq_None_iff)
  have e': "resident pt2 q \<and> g \<noteq> None \<and> frame_at pt2 q = g"
    if "(q, g) \<in> set (AList.delete v c)" for q g
  proof -
    from that have qc: "(q, g) \<in> set c" and qv: "q \<noteq> v"
      by (auto simp: set_delete_alist)
    from qc pnc have qp: "q \<noteq> p" by force
    from e [OF qc] have "resident pt q" "g \<noteq> None" "frame_at pt q = g" by auto
    moreover from this(1) have "0 \<le> q" by (simp add: resident_def)
    ultimately show ?thesis using R [of q] F [of q] qp qv by simp
  qed
  have fr': "(q \<in> set fr') = resident pt2 q" for q
    using sfr fr_res [of q] R [of q] by auto
  have res_m': "frame_at pt2 q \<noteq> None \<and> (m(v := None, p \<mapsto> f0)) q = frame_at pt2 q"
    if "resident pt2 q" for q
  proof (cases "q = p")
    case True
    with f(3) show ?thesis by simp
  next
    case False
    with that R [of q] have qv: "q \<noteq> v" and rq: "resident pt q" by auto
    from rq have "0 \<le> q" by (simp add: resident_def)
    with False qv res_m [OF rq] F [of q] show ?thesis by simp
  qed
  have m_fr': "q \<in> set fr'" if "(m(v := None, p \<mapsto> f0)) q \<noteq> None" for q
    using that m_fr [of q] sfr by (auto split: if_splits)
  have look: "map_of (AList.delete v c) p = None"
    using miss vp by simp
  have len: "length (entries pt2) = length (entries pt)"
    using f(1) i(1) by simp
  from d' e' dfr fr' res_m' m_fr' have "consistent pt2 (AList.delete v c) fr' (m(v := None, p \<mapsto> f0))"
    unfolding consistent_def by blast
  with f(2) f(3) look len show ?thesis by simp
qed

lemma admit_consistent:
  assumes c: "consistent pt c fr m"
    and st: "policy_step fr p True None fr'"
    and sf: "set_frame pt p (Some f0) = Inr pt2"
    and p0: "0 \<le> p"
    and miss: "map_of c p = None"
  shows "consistent pt2 c fr' (m(p \<mapsto> f0)) \<and>
         resident pt2 p \<and> frame_at pt2 p = Some f0 \<and>
         length (entries pt2) = length (entries pt)"
proof -
  from st have pn: "p \<notin> set fr" and dfr: "distinct fr'"
    and sfr: "set fr' = insert p (set fr)"
    by (auto simp: policy_step_def)
  from c have d: "distinct (map fst c)"
    and e: "\<And>q g. (q, g) \<in> set c \<Longrightarrow> resident pt q \<and> g \<noteq> None \<and> frame_at pt q = g"
    and fr_res: "\<And>q. (q \<in> set fr) = resident pt q"
    and res_m: "\<And>q. resident pt q \<Longrightarrow> frame_at pt q \<noteq> None \<and> m q = frame_at pt q"
    and m_fr: "\<And>q. m q \<noteq> None \<Longrightarrow> q \<in> set fr"
    unfolding consistent_def by blast+
  note f = set_frame_view [OF sf p0]
  have neg: "\<And>q. q < 0 \<Longrightarrow> \<not> resident pt q" by (simp add: resident_def)
  have R: "resident pt2 q = (q = p \<or> resident pt q)" for q
  proof (cases "q < 0")
    case True
    with f(5) neg p0 show ?thesis by auto
  next
    case False
    then have q0: "0 \<le> q" by simp
    show ?thesis
      using f(2) f(4) [OF q0] by (cases "q = p") auto
  qed
  have F: "frame_at pt2 q = frame_at pt q" if "0 \<le> q" "q \<noteq> p" for q
    using f(4) [OF that] by simp
  from miss have pnc: "p \<notin> fst ` set c" by (simp add: map_of_eq_None_iff)
  have e': "resident pt2 q \<and> g \<noteq> None \<and> frame_at pt2 q = g"
    if qc: "(q, g) \<in> set c" for q g
  proof -
    from qc pnc have qp: "q \<noteq> p" by force
    from e [OF qc] have "resident pt q" "g \<noteq> None" "frame_at pt q = g" by auto
    moreover from this(1) have "0 \<le> q" by (simp add: resident_def)
    ultimately show ?thesis using R [of q] F [of q] qp by simp
  qed
  have fr': "(q \<in> set fr') = resident pt2 q" for q
    using sfr fr_res [of q] R [of q] by auto
  have res_m': "frame_at pt2 q \<noteq> None \<and> (m(p \<mapsto> f0)) q = frame_at pt2 q"
    if "resident pt2 q" for q
  proof (cases "q = p")
    case True
    with f(3) show ?thesis by simp
  next
    case False
    with that R [of q] have rq: "resident pt q" by auto
    from rq have "0 \<le> q" by (simp add: resident_def)
    with False res_m [OF rq] F [of q] show ?thesis by simp
  qed
  have m_fr': "q \<in> set fr'" if "(m(p \<mapsto> f0)) q \<noteq> None" for q
    using that m_fr [of q] sfr by (auto split: if_splits)
  from d e' dfr fr' res_m' m_fr' have "consistent pt2 c fr' (m(p \<mapsto> f0))"
    unfolding consistent_def by blast
  with f(1) f(2) f(3) show ?thesis by simp
qed

lemma handle_page_fault_inv:
  assumes h: "handle_page_fault s p w = Inr (s', f0)"
    and inv: "sim_inv s" and p0: "0 \<le> p"
    and miss: "map_of (cache (tlb s)) p = None"
    and nr: "\<not> resident (page_table s) p"
  shows "sim_inv s' \<and> resident (page_table s') p \<and> frame_at (page_table s') p = Some f0 \<and>
         map_of (cache (tlb s')) p = None \<and> sim_num_pages s' = sim_num_pages s \<and>
         page_to_frame s' p = Some f0"
proof -
  from inv have c: "consistent (page_table s) (cache (tlb s)) (frames_of (algorithm s))
                      (page_to_frame s)"
    and len: "length (entries (page_table s)) = nat (sim_num_pages s)"
    by (auto simp: sim_inv_def)
  from c have dfr: "distinct (frames_of (algorithm s))"
    and fr_res: "\<And>q. (q \<in> set (frames_of (algorithm s))) = resident (page_table s) q"
    unfolding consistent_def by blast+
  from h obtain alg fault victim where
    ap: "access_page (algorithm s) p (current_time s) w = Inr (alg, fault, victim)"
    unfolding handle_page_fault_def by (auto split: sum.splits)
  from access_page_step [OF ap dfr] nr fr_res
  have st: "policy_step (frames_of (algorithm s)) p True victim (frames_of alg)"
    and fault: "fault"
    by (auto simp: policy_step_def)
  show ?thesis
  proof (cases victim)
    case None
    with h ap obtain rest pt where
      sf: "set_frame (page_table s) p (Some f0) = Inr pt" and
      s': "s' = s\<lparr>algorithm := alg, free_frames := rest, page_table := pt,
                   page_to_frame := (page_to_frame s)(p \<mapsto> f0)\<rparr>"
      unfolding handle_page_fault_def
      by (auto split: sum.splits list.splits)
    from admit_consistent [OF c st [unfolded None] sf p0 miss] len miss
    show ?thesis by (simp add: s' sim_inv_def)
  next
    case (Some v)
    with h ap obtain pt1 pt2 where
      mv: "page_to_frame s v = Some f0" and
      pi: "pt_invalidate (page_table s) v = Inr pt1" and
      sf: "set_frame pt1 p (Some f0) = Inr pt2" and
      s': "s' = s\<lparr>algorithm := alg, page_table := pt1,
                   tlb := tlb_invalidate (tlb s) v,
                   page_to_frame := (page_to_frame s)(v := None),
                   page_table := pt2,
                   page_to_frame := (page_to_frame s)(v := None, p \<mapsto> f0)\<rparr>"
      unfolding handle_page_fault_def
      by (auto split: sum.splits option.splits)
    from evict_consistent [OF c st [unfolded Some] pi sf p0 miss] len
    show ?thesis by (simp add: s' sim_inv_def cache_tlb_invalidate)
  qed
qed

lemma is_valid_in_range:
  "0 \<le> p \<Longrightarrow> p < int (length (entries pt)) \<Longrightarrow> is_valid pt p = Inr (resident pt p)"
  by (simp add: is_valid_def resident_def py_index_def)

lemma get_frame_number_resident:
  "resident pt p \<Longrightarrow> get_frame_number pt p = Inr (frame_at pt p)"
  by (simp add: get_frame_number_def is_valid_def resident_def frame_at_def py_index_def)

lemma translate_address_inv:
  assumes t: "translate_address s va w = Inr (s', pa, fault, hit)"
    and inv: "sim_inv s"
    and p0: "0 \<le> va div page_size s" and p1: "va div page_size s < sim_num_pages s"
  shows "sim_inv s' \<and> sim_num_pages s' = sim_num_pages s \<and> page_size s' = page_size s \<and>
         fault = (\<not> resident (page_table s) (va div page_size s)) \<and>
         resident (page_table s') (va div page_size s) \<and>
         frame_at (page_table s') (va div page_size s) = Some (pa div page_size s) \<and>
         map_of (cache (tlb s')) (va div page_size s) = Some (Some (pa div page_size s)) \<and>
         page_to_frame s' (va div page_size s) = Some (pa div page_size s)"
proof -
  define p where "p = va div page_size s"
  define ps where "ps = page_size s"
  from t have ps0: "ps \<noteq> 0"
    unfolding translate_address_def Let_def ps_def by (auto split: if_splits)
  from inv have c: "consistent (page_table s) (cache (tlb s)) (frames_of (algorithm s))
                      (page_to_frame s)"
    and len: "length (entries (page_table s)) = nat (sim_num_pages s)"
    by (auto simp: sim_inv_def)
  from c have e: "\<And>q g. (q, g) \<in> set (cache (tlb s)) \<Longrightarrow>
        resident (page_table s) q \<and> g \<noteq> None \<and> frame_at (page_table s) q = g"
    and res_m: "\<And>q. resident (page_table s) q \<Longrightarrow>
        frame_at (page_table s) q \<noteq> None \<and> page_to_frame s q = frame_at (page_table s) q"
    unfolding consistent_def by blast+
  have pe: "va div ps = p" by (simp add: p_def ps_def)
  from p0 p1 len have pr: "0 \<le> p" "p < int (length (entries (page_table s)))"
    by (auto simp: p_def)
  show ?thesis
  proof (cases "map_of (cache (tlb s)) p")
    case (Some fo)
    from e [OF map_of_SomeD [OF Some]] obtain f where
      fo: "fo = Some f" and rp: "resident (page_table s) p"
      and fa: "frame_at (page_table s) p = Some f"
      by auto
    from t Some fo ps0 obtain pt where
      ua: "update_access (page_table s) p (current_time s + 1) w = Inr pt" and
      s': "s' = s\<lparr>memory_accesses := memory_accesses s + 1,
                   current_time := current_time s + 1,
                   tlb := (tlb s)\<lparr>hits := hits (tlb s) + 1,
                      cache := AList.delete p (cache (tlb s)) @ [(p, Some f)]\<rparr>,
                   page_table := pt\<rparr>" and
      out: "pa = f * ps + va mod ps" "\<not> fault" "hit"
      unfolding translate_address_def Let_def tlb_lookup_def p_def ps_def
      by (auto split: sum.splits)
    have c1: "consistent (page_table s) (AList.delete p (cache (tlb s)) @ [(p, Some f)])
                (frames_of (algorithm s)) (page_to_frame s)"
      using lookup_hit_consistent [OF c] Some fo by simp
    from update_access_consistent [OF ua c1] update_access_view [OF ua, of p]
      len rp fa res_m [OF rp] out ps0
    show ?thesis
      by (simp add: s' sim_inv_def ps_def [symmetric] pe map_add_def delete_conv)
  next
    case None
    show ?thesis
    proof (cases "resident (page_table s) p")
      case True
      from res_m [OF True] obtain f where
        fa: "frame_at (page_table s) p = Some f" and mp: "page_to_frame s p = Some f"
        by auto
      from t None ps0 True fa pr obtain t2 pt where
        ti: "tlb_insert ((tlb s)\<lparr>misses := misses (tlb s) + 1\<rparr>) p (Some f) = Inr t2" and
        ua: "update_access (page_table s) p (current_time s + 1) w = Inr pt" and
        s': "s' = s\<lparr>memory_accesses := memory_accesses s + 1,
                   current_time := current_time s + 1,
                   tlb := t2, page_table := pt\<rparr>" and
        out: "pa = f * ps + va mod ps" "\<not> fault" "\<not> hit"
        unfolding translate_address_def Let_def tlb_lookup_def p_def ps_def
        by (auto simp: is_valid_in_range get_frame_number_resident split: sum.splits)
      from tlb_insert_consistent [OF _ _ ti True _ fa] c None
      have c1: "consistent (page_table s) (cache t2) (frames_of (algorithm s)) (page_to_frame s)"
        and look: "map_of (cache t2) p = Some (Some f)"
        by auto
      from update_access_consistent [OF ua c1] update_access_view [OF ua, of p]
        len True fa mp out ps0 look
      show ?thesis
        by (simp add: s' sim_inv_def ps_def [symmetric] pe)
    next
      case False
      from t None ps0 False pr obtain s2 f t2 pt where
        h: "handle_page_fault
              (s\<lparr>memory_accesses := memory_accesses s + 1,
                 current_time := current_time s + 1,
                 tlb := (tlb s)\<lparr>misses := misses (tlb s) + 1\<rparr>,
                 page_faults := page_faults s + 1\<rparr>) p w = Inr (s2, f)" and
        ti: "tlb_insert (tlb s2) p (Some f) = Inr t2" and
        ua: "update_access (page_table s2) p (current_time s2) w = Inr pt" and
        s': "s' = s2\<lparr>tlb := t2, page_table := pt\<rparr>" and
        out: "pa = f * page_size s2 + va mod ps" "fault" "\<not> hit"
        unfolding translate_address_def Let_def tlb_lookup_def p_def ps_def
        by (auto simp: is_valid_in_range split: sum.splits)
      let ?s1 = "s\<lparr>memory_accesses := memory_accesses s + 1,
                 current_time := current_time s + 1,
                 tlb := (tlb s)\<lparr>misses := misses (tlb s) + 1\<rparr>,
                 page_faults := page_faults s + 1\<rparr>"
      have inv1: "sim_inv ?s1" using inv by (simp add: sim_inv_def)
      from handle_page_fault_inv [OF h inv1 pr(1)] None False
      have inv2: "sim_inv s2" and r2: "resident (page_table s2) p"
        and fa2: "frame_at (page_table s2) p = Some f"
        and miss2: "map_of (cache (tlb s2)) p = None"
        and np2: "sim_num_pages s2 = sim_num_pages s"
        and m2: "page_to_frame s2 p = Some f"
        by auto
      from handle_page_fault_page_size [OF h] have ps2: "page_size s2 = ps"
        by (simp add: ps_def)
      from inv2 have c2: "consistent (page_table s2) (cache (tlb s2)) (frames_of (algorithm s2))
                      (page_to_frame s2)"
        and len2: "length (entries (page_table s2)) = nat (sim_num_pages s2)"
        by (auto simp: sim_inv_def)
      from tlb_insert_consistent [OF c2 miss2 ti r2 _ fa2]
      have c3: "consistent (page_table s2) (cache t2) (frames_of (algorithm s2)) (page_to_frame s2)"
        and look: "map_of (cache t2) p = Some (Some f)"
        by auto
      from update_access_consistent [OF ua c3] update_access_view [OF ua, of p]
        len2 np2 r2 fa2 m2 out ps0 ps2 look False
      show ?thesis
        by (simp add: s' sim_inv_def ps_def [symmetric] pe)
    qed
  qed
qed

lemma init_inv:
  "init np nf ps ts name rs = Inr s \<Longrightarrow>
   sim_inv s \<and> sim_num_pages s = np \<and> page_size s = ps"
  by (auto simp: init_def make_algorithm_def sim_inv_def consistent_def resident_def
        new_page_table_def new_tlb_def new_entry_def
      split: sum.splits if_splits option.splits)

lemma translate_all_inv:
  "translate_all s calls = Inr s' \<Longrightarrow> sim_inv s \<Longrightarrow>
   \<forall>(a, w) \<in> set calls. 0 \<le> a div page_size s \<and> a div page_size s < sim_num_pages s \<Longrightarrow>
   sim_inv s' \<and> sim_num_pages s' = sim_num_pages s \<and> page_size s' = page_size s"
proof (induction calls arbitrary: s)
  case Nil
  then show ?case by simp
next
  case (Cons c calls)
  obtain a w where c: "c = (a, w)" by (cases c)
  from Cons.prems(1) c obtain s1 pa fault hit where
    t: "translate_address s a w = Inr (s1, pa, fault, hit)" and
    r: "translate_all s1 calls = Inr s'"
    by (auto split: sum.splits)
  from Cons.prems(3) c have "0 \<le> a div page_size s" "a div page_size s < sim_num_pages s"
    by auto
  from translate_address_inv [OF t Cons.prems(2) this]
  have i1: "sim_inv s1" and n1: "sim_num_pages s1 = sim_num_pages s"
    and p1: "page_size s1 = page_size s"
    by auto
  from Cons.IH [OF r i1] Cons.prems(3) n1 p1 show ?case by auto
qed

lemma after_calls_inv:
  assumes "after_calls np nf ps ts name rs calls = Inr s"
    and "\<forall>(a, w) \<in> set calls. 0 \<le> a div ps \<and> a div ps < np"
  shows "sim_inv s \<and> sim_num_pages s = np \<and> page_size s = ps"
proof -
  from assms(1) obtain s0 where i: "init np nf ps ts name rs = Inr s0"
    and r: "translate_all s0 calls = Inr s"
    by (auto simp: after_calls_def split: sum.splits)
  from init_inv [OF i] translate_all_inv [OF r] assms(2) show ?thesis by auto
qed

subsection \<open>Translation and residency\<close>

text \<open>
  C1 (as stated): after every call \<open>translate_address(va, isWrite)\<close> the page table
  reports the page of \<open>va\<close> valid. A negative page number is not rejected: page
  \<open>-1\<close> of a 10-page table reads and writes the entry of page 9 and gets its own TLB
  entry. With one frame, after page 9 and page \<open>-1\<close> are referenced and page 5 then
  evicts page 9, the TLB still holds page \<open>-1\<close>; the next reference to it is a TLB
  hit, and after it the page table reports page \<open>-1\<close> invalid.
\<close>

theorem negative_page_left_invalid:
  "map_sum id (page_valid_in (- 1))
     (after_calls 10 1 4096 4 ''FIFO'' None
        [(36864, False), (- 1, False), (20480, False), (- 1, False)]) = Inr (Inr False)"
  by code_simp

text \<open>
  C1 (amended): on a constructed simulator, after any sequence of returning calls whose
  page numbers lie in \<open>[0, num_pages)\<close>, a returning call
  \<open>translate_address(va, isWrite)\<close> on such a page leaves the page table reporting the
  page valid with the frame of the returned physical address, the TLB holding the page
  with that frame, and \<open>page_to_frame\<close> mapping the page to it.
\<close>

theorem translation_leaves_caches_consistent:
  assumes "after_calls np nf ps ts name rs calls = Inr s"
    and "\<forall>(a, w) \<in> set calls. 0 \<le> a div ps \<and> a div ps < np"
    and "translate_address s va w = Inr (s', pa, fault, hit)"
    and "0 \<le> va div ps" and "va div ps < np"
  shows "is_valid (page_table s') (va div ps) = Inr True \<and>
         get_frame_number (page_table s') (va div ps) = Inr (Some (pa div ps)) \<and>
         map_of (cache (tlb s')) (va div ps) = Some (Some (pa div ps)) \<and>
         page_to_frame s' (va div ps) = Some (pa div ps)"
proof -
  from after_calls_inv [OF assms(1,2)] have i: "sim_inv s" and n: "sim_num_pages s = np"
    and p: "page_size s = ps"
    by auto
  from translate_address_inv [OF assms(3) i] assms(4,5) n p
  have r: "resident (page_table s') (va div ps)"
    and f: "frame_at (page_table s') (va div ps) = Some (pa div ps)"
    and rest: "map_of (cache (tlb s')) (va div ps) = Some (Some (pa div ps))"
      "page_to_frame s' (va div ps) = Some (pa div ps)"
    by auto
  from r have "is_valid (page_table s') (va div ps) = Inr True"
    by (simp add: is_valid_in_range resident_def)
  with get_frame_number_resident [OF r] f rest show ?thesis by simp
qed

theorem translation_leaves_caches_consistent_witness:
  "\<exists>s s'. after_calls 10 3 4096 4 ''LRU'' None [(4096, False), (8192, True)] = Inr s
     \<and> translate_address s 8200 False = Inr (s', 4104, False, True)
     \<and> is_valid (page_table s') 2 = Inr True
     \<and> get_frame_number (page_table s') 2 = Inr (Some 1)
     \<and> map_of (cache (tlb s')) 2 = Some (Some 1)
     \<and> page_to_frame s' 2 = Some 1"
proof -
  have "\<not> isl (after_calls 10 3 4096 4 ''LRU'' None [(4096, False), (8192, True)])"
    by code_simp
  then obtain s where
    s: "after_calls 10 3 4096 4 ''LRU'' None [(4096, False), (8192, True)] = Inr s"
    using not_isl_result by blast
  have "map_sum id snd
          (case after_calls 10 3 4096 4 ''LRU'' None [(4096, False), (8192, True)] of
             Inl e \<Rightarrow> Inl e
           | Inr s \<Rightarrow> translate_address s 8200 False) = Inr (4104, False, True)"
    by code_simp
  with s obtain s' where r: "translate_address s 8200 False = Inr (s', 4104, False, True)"
    using sum_result_cases by fastforce
  have calls: "\<forall>(a, w) \<in> set [(4096, False), (8192, True)]. 0 \<le> a div 4096 \<and> a div 4096 < (10::int)"
    by simp
  from translation_leaves_caches_consistent [OF s calls r] s r show ?thesis
    by simp
qed

text \<open>
  C3 (as stated): the returned fault flag is true exactly when the page was not resident
  before the call. In the run above, before the last call page \<open>-1\<close> is in none of
  \<open>page_to_frame\<close>, the policy's \<open>frames\<close> and the valid page-table entries, and the
  call reports no fault (a TLB hit on the stale entry).
\<close>

theorem negative_page_hit_without_residency:
  "map_sum id (residency (- 1))
     (after_calls 10 1 4096 4 ''FIFO'' None [(36864, False), (- 1, False), (20480, False)])
   = Inr (None, False, Inr False)
   \<and> map_sum id (next_outcome (- 1) False)
     (after_calls 10 1 4096 4 ''FIFO'' None [(36864, False), (- 1, False), (20480, False)])
   = Inr (Inr (4095, False, True))"
  by code_simp

text \<open>
  C3 (amended): on a constructed simulator, after any sequence of returning calls whose
  page numbers lie in \<open>[0, num_pages)\<close>, a returning call on such a page reports a
  fault exactly when the page was not resident before the call: not in
  \<open>page_to_frame\<close>, equivalently not in the policy's \<open>frames\<close>, equivalently invalid in
  the page table. This holds for each of the five policies.
\<close>

theorem fault_iff_not_resident:
  assumes "after_calls np nf ps ts name rs calls = Inr s"
    and "\<forall>(a, w) \<in> set calls. 0 \<le> a div ps \<and> a div ps < np"
    and "translate_address s va w = Inr (s', pa, fault, hit)"
    and "0 \<le> va div ps" and "va div ps < np"
  shows "fault = (page_to_frame s (va div ps) = None) \<and>
         fault = (\<not> is_page_in_memory (algorithm s) (va div ps)) \<and>
         is_valid (page_table s) (va div ps) = Inr (\<not> fault)"
proof -
  from after_calls_inv [OF assms(1,2)] have i: "sim_inv s" and n: "sim_num_pages s = np"
    and p: "page_size s = ps"
    by auto
  from translate_address_inv [OF assms(3) i] assms(4,5) n p
  have f: "fault = (\<not> resident (page_table s) (va div ps))"
    by auto
  from i have c: "consistent (page_table s) (cache (tlb s)) (frames_of (algorithm s))
                      (page_to_frame s)"
    and len: "length (entries (page_table s)) = nat (sim_num_pages s)"
    by (auto simp: sim_inv_def)
  from c have fr_res: "\<And>q. (q \<in> set (frames_of (algorithm s))) = resident (page_table s) q"
    and res_m: "\<And>q. resident (page_table s) q \<Longrightarrow>
        frame_at (page_table s) q \<noteq> None \<and> page_to_frame s q = frame_at (page_table s) q"
    and m_fr: "\<And>q. page_to_frame s q \<noteq> None \<Longrightarrow> q \<in> set (frames_of (algorithm s))"
    unfolding consistent_def by blast+
  have a: "fault = (page_to_frame s (va div ps) = None)"
    using f fr_res [of "va div ps"] res_m [of "va div ps"] m_fr [of "va div ps"]
    by (cases "page_to_frame s (va div ps)") auto
  have b: "fault = (\<not> is_page_in_memory (algorithm s) (va div ps))"
    using f fr_res [of "va div ps"] by (simp add: is_page_in_memory_def)
  have "is_valid (page_table s) (va div ps) = Inr (resident (page_table s) (va div ps))"
    using assms(4,5) len n by (intro is_valid_in_range) auto
  then have v: "is_valid (page_table s) (va div ps) = Inr (\<not> fault)"
    by (simp only: f simp_thms)
  from a b v show ?thesis by blast
qed

theorem fault_iff_not_resident_witness:
  "\<exists>s s'. after_calls 10 3 4096 4 ''Clock'' None [(4096, False), (8192, True)] = Inr s
     \<and> translate_address s 12288 False = Inr (s', 8192, True, False)
     \<and> page_to_frame s 3 = None
     \<and> \<not> is_page_in_memory (algorithm s) 3
     \<and> is_valid (page_table s) 3 = Inr False"
proof -
  have "\<not> isl (after_calls 10 3 4096 4 ''Clock'' None [(4096, False), (8192, True)])"
    by code_simp
  then obtain s where
    s: "after_calls 10 3 4096 4 ''Clock'' None [(4096, False), (8192, True)] = Inr s"
    using not_isl_result by blast
  have "map_sum id snd
          (case after_calls 10 3 4096 4 ''Clock'' None [(4096, False), (8192, True)] of
             Inl e \<Rightarrow> Inl e
           | Inr s \<Rightarrow> translate_address s 12288 False) = Inr (8192, True, False)"
    by code_simp
  with s obtain s' where r: "translate_address s 12288 False = Inr (s', 8192, True, False)"
    using sum_result_cases by fastforce
  have calls: "\<forall>(a, w) \<in> set [(4096, False), (8192, True)]. 0 \<le> a div 4096 \<and> a div 4096 < (10::int)"
    by simp
  from fault_iff_not_resident [OF s calls r] s r show ?thesis
    by simp
qed

subsection \<open>Pages outside the table\<close>

lemma pt_invalidate_length:
  "pt_invalidate pt p = Inr pt' \<Longrightarrow> length (entries pt') = length (entries pt)"
  by (auto simp: pt_invalidate_def split: option.splits)

lemma set_frame_length:
  "set_frame pt p f = Inr pt' \<Longrightarrow> length (entries pt') = length (entries pt)"
  by (auto simp: set_frame_def split: option.splits)

lemma handle_page_fault_shape:
  "handle_page_fault s p w = Inr (s', fr) \<Longrightarrow>
   length (entries (page_table s')) = length (entries (page_table s)) \<and>
   sim_num_pages s' = sim_num_pages s \<and> page_size s' = page_size s"
  unfolding handle_page_fault_def
  by (auto split: sum.splits prod.splits option.splits list.splits
           dest!: pt_invalidate_length set_frame_length)

lemma update_access_length:
  "update_access pt p t w = Inr pt' \<Longrightarrow> length (entries pt') = length (entries pt)"
  by (auto simp: update_access_def Let_def split: option.splits)

lemma translate_address_shape:
  "translate_address s va w = Inr (s', r) \<Longrightarrow>
   length (entries (page_table s')) = length (entries (page_table s)) \<and>
   sim_num_pages s' = sim_num_pages s \<and> page_size s' = page_size s"
  unfolding translate_address_def Let_def
  by (auto split: if_splits sum.splits prod.splits option.splits
           dest!: handle_page_fault_shape update_access_length)

lemma translate_all_shape:
  "translate_all s calls = Inr s' \<Longrightarrow>
   length (entries (page_table s')) = length (entries (page_table s)) \<and>
   sim_num_pages s' = sim_num_pages s \<and> page_size s' = page_size s"
proof (induction calls arbitrary: s)
  case Nil
  then show ?case by simp
next
  case (Cons c calls)
  obtain a w where c: "c = (a, w)" by (cases c)
  from Cons.prems c obtain s1 r where
    t: "translate_address s a w = Inr (s1, r)" and
    rest: "translate_all s1 calls = Inr s'"
    by (auto split: sum.splits)
  from translate_address_shape [OF t] Cons.IH [OF rest] show ?case by simp
qed

lemma out_of_range_raises:
  assumes "page_size s \<noteq> 0"
    and "py_index (length (entries (page_table s))) (va div page_size s) = None"
  shows "translate_address s va w = Inl IndexError"
  using assms
  unfolding translate_address_def Let_def
  by (auto simp: tlb_lookup_def is_valid_def update_access_def split: option.splits)

text \<open>
  C5 (as stated): translating an address whose page number is outside
  \<open>[0, num_pages)\<close>, negative ones included, fails. On a fresh 10-page simulator the
  address \<open>-1\<close> (page \<open>-1\<close>) is translated like any other: a page fault, frame 0,
  physical address 4095.
\<close>

theorem negative_page_accepted:
  "map_sum id (next_outcome (- 1) False)
     (after_calls 10 3 4096 4 ''FIFO'' None []) = Inr (Inr (4095, True, False))"
  by code_simp

text \<open>
  C5 (amended): on a constructed simulator with a non-zero page size, after any sequence
  of returning calls, translating an address whose page number \<open>p\<close> satisfies
  \<open>p \<ge> num_pages\<close> or \<open>p < - num_pages\<close> raises IndexError.
\<close>

theorem page_beyond_table_raises:
  assumes "after_calls np nf ps ts name rs calls = Inr s"
    and "ps \<noteq> 0"
    and "np \<le> va div ps \<or> va div ps < - np"
  shows "translate_address s va w = Inl IndexError"
proof -
  from assms(1) obtain s0 where i: "init np nf ps ts name rs = Inr s0"
    and r: "translate_all s0 calls = Inr s"
    by (auto simp: after_calls_def split: sum.splits)
  from i have "length (entries (page_table s0)) = nat np" "page_size s0 = ps"
    by (auto simp: init_def new_page_table_def split: sum.splits)
  with translate_all_shape [OF r] have
    len: "length (entries (page_table s)) = nat np" and p: "page_size s = ps"
    by auto
  from assms(3) have "py_index (nat np) (va div ps) = None"
    by (auto simp: py_index_def)
  with out_of_range_raises [of s va w] len p assms(2) show ?thesis by simp
qed

theorem page_beyond_table_raises_witness:
  "\<exists>s. after_calls 10 3 4096 4 ''FIFO'' None [(4096, False)] = Inr s
     \<and> translate_address s 40960 False = Inl IndexError
     \<and> translate_address s (- 45056) True = Inl IndexError"
proof -
  have "\<not> isl (after_calls 10 3 4096 4 ''FIFO'' None [(4096, False)])"
    by code_simp
  then obtain s where
    s: "after_calls 10 3 4096 4 ''FIFO'' None [(4096, False)] = Inr s"
    using not_isl_result by blast
  from page_beyond_table_raises [OF s, of 40960 False]
       page_beyond_table_raises [OF s, of "- 45056" True] s
  show ?thesis by simp
qed

subsection \<open>LFU\<close>

lemma fold_min_least:
  "fold min xs (x::int) \<in> set (x # xs) \<and> (\<forall>y \<in> set (x # xs). fold min xs x \<le> y)"
proof (induction xs arbitrary: x)
  case Nil
  show ?case by simp
next
  case (Cons a xs)
  from Cons.IH [of "min a x"] show ?case
    by (auto simp: min_def split: if_splits)
qed

lemma py_min_least:
  "py_min xs = Some m \<Longrightarrow> m \<in> set xs \<and> (\<forall>y \<in> set xs. m \<le> y)"
  using fold_min_least by (cases xs) auto

lemma fold_min_by_least:
  "fold (\<lambda>y best. if f y < f best then y else best) xs x \<in> set (x # xs) \<and>
   (\<forall>y \<in> set (x # xs).
      f (fold (\<lambda>y best. if f y < f best then y else best) xs x) \<le> (f y :: int))"
proof (induction xs arbitrary: x)
  case Nil
  show ?case by simp
next
  case (Cons a xs)
  from Cons.IH [of "if f a < f x then a else x"] show ?case
    by (auto split: if_splits)
qed

lemma py_min_by_least:
  "py_min_by f xs = Some v \<Longrightarrow> v \<in> set xs \<and> (\<forall>y \<in> set xs. f v \<le> f y)"
  using fold_min_by_least [of f] by (cases xs) auto


lemma lfu_get_victim_least:
  assumes g: "lfu_get_victim s = Inr v" and d: "distinct (map fst (access_counts s))"
  shows "\<exists>cv. map_of (access_counts s) v = Some cv \<and>
           (\<forall>q cq. map_of (access_counts s) q = Some cq \<longrightarrow> cv \<le> cq) \<and>
           (\<forall>q. map_of (access_counts s) q = Some cv \<longrightarrow> q \<noteq> v \<longrightarrow>
              (\<exists>tv tq. map_of (lfu_access_times s) v = Some tv \<and>
                 map_of (lfu_access_times s) q = Some tq \<and> tv \<le> tq))"
proof -
  define cs where "cs = access_counts s"
  define ts where "ts = lfu_access_times s"
  from g obtain m where m: "py_min (map snd cs) = Some m"
    by (auto simp: lfu_get_victim_def cs_def split: option.splits)
  define cand where "cand = map fst (filter (\<lambda>(p, count). count = m) cs)"
  from py_min_least [OF m] have least: "\<And>q cq. (q, cq) \<in> set cs \<Longrightarrow> m \<le> cq"
    by force
  have mem: "q \<in> set cand \<longleftrightarrow> (q, m) \<in> set cs" for q
    by (force simp: cand_def)
  have look: "map_of cs q = Some c \<longleftrightarrow> (q, c) \<in> set cs" for q c
    using d by (simp add: cs_def)
  from g m have v: "(length cand = 1 \<and> v = hd cand) \<or>
      (length cand \<noteq> 1 \<and> (\<forall>q \<in> set cand. map_of ts q \<noteq> None) \<and>
       py_min_by (\<lambda>p. the (map_of ts p)) cand = Some v)"
    by (auto simp: lfu_get_victim_def cs_def [symmetric] ts_def [symmetric] Let_def
          cand_def [symmetric] split: option.splits if_splits)
  then show ?thesis
  proof
    assume "length cand = 1 \<and> v = hd cand"
    then have c1: "cand = [v]"
      by (cases cand) auto
    then have "(v, m) \<in> set cs" using mem [of v] by simp
    moreover have "q = v" if "(q, m) \<in> set cs" for q
      using that mem [of q] c1 by simp
    ultimately show ?thesis
      using least unfolding cs_def [symmetric] ts_def [symmetric] look by blast
  next
    assume a: "length cand \<noteq> 1 \<and> (\<forall>q \<in> set cand. map_of ts q \<noteq> None) \<and>
       py_min_by (\<lambda>p. the (map_of ts p)) cand = Some v"
    from py_min_by_least [of "\<lambda>p. the (map_of ts p)" cand v] a
    have vin: "v \<in> set cand"
      and vmin: "\<And>q. q \<in> set cand \<Longrightarrow> the (map_of ts v) \<le> the (map_of ts q)"
      by auto
    from a have some: "\<And>q. q \<in> set cand \<Longrightarrow> \<exists>tq. map_of ts q = Some tq"
      by auto
    have tie: "\<exists>tv tq. map_of ts v = Some tv \<and> map_of ts q = Some tq \<and> tv \<le> tq"
      if "(q, m) \<in> set cs" for q
    proof -
      from that have qc: "q \<in> set cand" by (simp add: mem)
      from some [OF vin] some [OF qc] vmin [OF qc] show ?thesis by auto
    qed
    from vin have "(v, m) \<in> set cs" by (simp add: mem)
    with least tie show ?thesis
      unfolding cs_def [symmetric] ts_def [symmetric] look by blast
  qed
qed

lemma lfu_get_victim_exists:
  assumes ne: "access_counts s \<noteq> []"
    and sub: "fst ` set (access_counts s) \<subseteq> fst ` set (lfu_access_times s)"
  shows "\<exists>v. lfu_get_victim s = Inr v"
proof -
  define cs where "cs = access_counts s"
  define ts where "ts = lfu_access_times s"
  from ne obtain m where m: "py_min (map snd cs) = Some m"
    by (cases cs) (auto simp: cs_def)
  define cand where "cand = map fst (filter (\<lambda>(p, count). count = m) cs)"
  from py_min_least [OF m] have "m \<in> snd ` set cs" by simp
  then have cne: "cand \<noteq> []"
    by (force simp: cand_def filter_empty_conv)
  have "set cand \<subseteq> fst ` set cs" by (auto simp: cand_def)
  with sub have "\<forall>q \<in> set cand. map_of ts q \<noteq> None"
    by (auto simp: cs_def ts_def map_of_eq_None_iff)
  moreover from cne obtain v where "py_min_by (\<lambda>p. the (map_of ts p)) cand = Some v"
    by (cases cand) auto
  ultimately show ?thesis
    using m
    by (auto simp: lfu_get_victim_def cs_def [symmetric] ts_def [symmetric] Let_def
          cand_def [symmetric])
qed


lemma keys_update_alist: "fst ` set (AList.update k v al) = insert k (fst ` set al)"
  by (induction al) auto

lemma keys_delete_alist: "fst ` set (AList.delete k al) = fst ` set al - {k}"
  by (induction al) auto

lemma lfu_step_wf:
  assumes wf: "lfu_wf s" and n1: "1 \<le> num_frames s"
  shows "\<exists>s' fault victim.
     lfu_access_page s p t w = Inr (s', fault, victim) \<and>
     lfu_wf s' \<and> num_frames s' = num_frames s \<and>
     fault = (p \<notin> set (frames s)) \<and>
     (p \<in> set (frames s) \<longrightarrow>
        victim = None \<and> frames s' = frames s \<and>
        (\<exists>c. map_of (access_counts s) p = Some c \<and>
             map_of (access_counts s') = (map_of (access_counts s))(p \<mapsto> c + 1)) \<and>
        map_of (lfu_access_times s') = (map_of (lfu_access_times s))(p \<mapsto> t)) \<and>
     (p \<notin> set (frames s) \<and> int (length (frames s)) < num_frames s \<longrightarrow>
        victim = None \<and> frames s' = frames s @ [p] \<and>
        map_of (access_counts s') = (map_of (access_counts s))(p \<mapsto> 1) \<and>
        map_of (lfu_access_times s') = (map_of (lfu_access_times s))(p \<mapsto> t)) \<and>
     (p \<notin> set (frames s) \<and> num_frames s \<le> int (length (frames s)) \<longrightarrow>
        (\<exists>v cv tv. victim = Some v \<and> v \<in> set (frames s) \<and>
           map_of (access_counts s) v = Some cv \<and>
           map_of (lfu_access_times s) v = Some tv \<and>
           (\<forall>q cq. map_of (access_counts s) q = Some cq \<longrightarrow> cv \<le> cq) \<and>
           (\<forall>q tq. map_of (access_counts s) q = Some cv \<longrightarrow>
              map_of (lfu_access_times s) q = Some tq \<longrightarrow> tv \<le> tq) \<and>
           frames s' = remove1 v (frames s) @ [p] \<and>
           map_of (access_counts s') = ((map_of (access_counts s))(v := None))(p \<mapsto> 1) \<and>
           map_of (lfu_access_times s') =
             ((map_of (lfu_access_times s))(v := None))(p \<mapsto> t)))"
proof -
  from wf have df: "distinct (frames s)"
    and dc: "distinct (map fst (access_counts s))"
    and dt: "distinct (map fst (lfu_access_times s))"
    and kc: "fst ` set (access_counts s) = set (frames s)"
    and kt: "fst ` set (lfu_access_times s) = set (frames s)"
    by (auto simp: lfu_wf_def)
  consider (hit) "p \<in> set (frames s)"
    | (free) "p \<notin> set (frames s)" "int (length (frames s)) < num_frames s"
    | (evict) "p \<notin> set (frames s)" "num_frames s \<le> int (length (frames s))"
    by linarith
  then show ?thesis
  proof cases
    case hit
    with kc have "map_of (access_counts s) p \<noteq> None"
      by (simp add: map_of_eq_None_iff)
    then obtain c where c: "map_of (access_counts s) p = Some c" by auto
    let ?s' = "s\<lparr>access_counts := AList.update p (c + 1) (access_counts s),
                   lfu_access_times := AList.update p t (lfu_access_times s)\<rparr>"
    have r: "lfu_access_page s p t w = Inr (?s', False, None)"
      using hit c by (simp add: lfu_access_page_def Let_def)
    have w': "lfu_wf ?s'"
      using df dc dt kc kt hit
      by (auto simp: lfu_wf_def distinct_update keys_update_alist)
    from r w' hit c show ?thesis
      by (auto simp: update_conv')
  next
    case free
    let ?s' = "s\<lparr>frames := frames s @ [p],
                   access_counts := AList.update p 1 (AList.update p 0 (access_counts s)),
                   lfu_access_times := AList.update p t (lfu_access_times s)\<rparr>"
    have r: "lfu_access_page s p t w = Inr (?s', True, None)"
      using free by (simp add: lfu_access_page_def Let_def update_conv')
    have w': "lfu_wf ?s'"
      using df dc dt kc kt free
      by (auto simp: lfu_wf_def distinct_update keys_update_alist)
    from r w' free show ?thesis
      by (auto simp: update_conv')
  next
    case evict
    with n1 have "frames s \<noteq> []" by auto
    with kc have ne: "access_counts s \<noteq> []" by auto
    from kc kt have "fst ` set (access_counts s) \<subseteq> fst ` set (lfu_access_times s)"
      by simp
    from lfu_get_victim_exists [OF ne this] obtain v where g: "lfu_get_victim s = Inr v"
      by blast
    from lfu_get_victim_least [OF g dc] obtain cv where
      cv: "map_of (access_counts s) v = Some cv" and
      least: "\<And>q cq. map_of (access_counts s) q = Some cq \<Longrightarrow> cv \<le> cq" and
      tie: "\<And>q. map_of (access_counts s) q = Some cv \<Longrightarrow> q \<noteq> v \<Longrightarrow>
              (\<exists>tv tq. map_of (lfu_access_times s) v = Some tv \<and>
                 map_of (lfu_access_times s) q = Some tq \<and> tv \<le> tq)"
      by blast
    from cv have "v \<in> fst ` set (access_counts s)"
      by (metis map_of_eq_None_iff option.distinct(1))
    with kc have vf: "v \<in> set (frames s)" by simp
    with kt have "map_of (lfu_access_times s) v \<noteq> None"
      by (simp add: map_of_eq_None_iff)
    then obtain tv where tv: "map_of (lfu_access_times s) v = Some tv" by auto
    from vf evict(1) have vp: "v \<noteq> p" by auto
    let ?s' = "s\<lparr>frames := remove1 v (frames s) @ [p],
                   access_counts :=
                     AList.update p 1 (AList.update p 0 (AList.delete v (access_counts s))),
                   lfu_access_times :=
                     AList.update p t (AList.delete v (lfu_access_times s))\<rparr>"
    have r: "lfu_access_page s p t w = Inr (?s', True, Some v)"
      using evict g vf tv by (simp add: lfu_access_page_def Let_def update_conv')
    have w': "lfu_wf ?s'"
      using df dc dt kc kt evict(1) vf
      by (auto simp: lfu_wf_def distinct_update distinct_delete keys_update_alist
            keys_delete_alist)
    have tie': "tv \<le> tq" if "map_of (access_counts s) q = Some cv"
      "map_of (lfu_access_times s) q = Some tq" for q tq
      using tie [OF that(1)] that(2) tv by (cases "q = v") auto
    have maps: "map_of (access_counts ?s') = ((map_of (access_counts s))(v := None))(p \<mapsto> 1)"
      "map_of (lfu_access_times ?s') = ((map_of (lfu_access_times s))(v := None))(p \<mapsto> t)"
      by (simp_all add: update_conv' delete_conv')
    from r w' evict vf cv tv least tie' maps show ?thesis
      by (intro exI [of _ ?s'] exI [of _ True] exI [of _ "Some v"]) auto
  qed
qed

lemma lfu_run_wf:
  "lfu_run s calls = Inr s' \<Longrightarrow> lfu_wf s \<Longrightarrow> 1 \<le> num_frames s \<Longrightarrow>
   lfu_wf s' \<and> num_frames s' = num_frames s"
proof (induction calls arbitrary: s)
  case Nil
  then show ?case by simp
next
  case (Cons c calls)
  obtain p t w where c: "c = (p, t, w)" by (cases c)
  from lfu_step_wf [OF Cons.prems(2,3), of p t w] obtain s1 fault victim where
    r: "lfu_access_page s p t w = Inr (s1, fault, victim)" and
    w1: "lfu_wf s1" and n1: "num_frames s1 = num_frames s"
    by blast
  from Cons.prems(1) c r have "lfu_run s1 calls = Inr s'" by simp
  from Cons.IH [OF this w1] n1 Cons.prems(3) show ?case by simp
qed

text \<open>
  C6: on an LFU policy with at least one frame, reached from its constructor by any
  sequence of returning \<open>access_page\<close> calls, the pages tracked by the two tables are
  exactly the resident ones and every further call \<open>access_page(p, t)\<close> returns, with
  a fault exactly when \<open>p\<close> is not resident.
  \<^item> \<open>p\<close> resident: no victim, \<open>frames\<close> unchanged, the count of \<open>p\<close> incremented by 1
    and its last-access time set to \<open>t\<close>, nothing else changed.
  \<^item> \<open>p\<close> not resident, below capacity: no victim, \<open>p\<close> appended to \<open>frames\<close> with
    count 1 (set to 0 on admission, incremented by the same access) and time \<open>t\<close>.
  \<^item> \<open>p\<close> not resident, at capacity: the victim is a resident page whose tracked count
    is the smallest of all tracked counts and whose last-access time is the smallest
    among the pages with that count; it leaves \<open>frames\<close> and both tables, and \<open>p\<close> is
    admitted with count 1 and time \<open>t\<close>.
\<close>

theorem lfu_victim_and_admission:
  assumes "lfu_run (lfu_new n) calls = Inr s" and "1 \<le> n"
  shows "\<exists>s' fault victim.
     lfu_access_page s p t w = Inr (s', fault, victim) \<and>
     fault = (p \<notin> set (frames s)) \<and>
     fst ` set (access_counts s) = set (frames s) \<and>
     fst ` set (lfu_access_times s) = set (frames s) \<and>
     (p \<in> set (frames s) \<longrightarrow>
        victim = None \<and> frames s' = frames s \<and>
        (\<exists>c. map_of (access_counts s) p = Some c \<and>
             map_of (access_counts s') = (map_of (access_counts s))(p \<mapsto> c + 1)) \<and>
        map_of (lfu_access_times s') = (map_of (lfu_access_times s))(p \<mapsto> t)) \<and>
     (p \<notin> set (frames s) \<and> int (length (frames s)) < n \<longrightarrow>
        victim = None \<and> frames s' = frames s @ [p] \<and>
        map_of (access_counts s') = (map_of (access_counts s))(p \<mapsto> 1) \<and>
        map_of (lfu_access_times s') = (map_of (lfu_access_times s))(p \<mapsto> t)) \<and>
     (p \<notin> set (frames s) \<and> n \<le> int (length (frames s)) \<longrightarrow>
        (\<exists>v cv tv. victim = Some v \<and> v \<in> set (frames s) \<and>
           map_of (access_counts s) v = Some cv \<and>
           map_of (lfu_access_times s) v = Some tv \<and>
           (\<forall>q cq. map_of (access_counts s) q = Some cq \<longrightarrow> cv \<le> cq) \<and>
           (\<forall>q tq. map_of (access_counts s) q = Some cv \<longrightarrow>
              map_of (lfu_access_times s) q = Some tq \<longrightarrow> tv \<le> tq) \<and>
           frames s' = remove1 v (frames s) @ [p] \<and>
           map_of (access_counts s') = ((map_of (access_counts s))(v := None))(p \<mapsto> 1) \<and>
           map_of (lfu_access_times s') =
             ((map_of (lfu_access_times s))(v := None))(p \<mapsto> t)))"
proof -
  have w0: "lfu_wf (lfu_new n)" and n0: "num_frames (lfu_new n) = n"
    by (simp_all add: lfu_wf_def lfu_new_def)
  from lfu_run_wf [OF assms(1) w0] assms(2) n0
  have wf: "lfu_wf s" and ns: "num_frames s = n" by simp_all
  from wf have keys: "fst ` set (access_counts s) = set (frames s)"
    "fst ` set (lfu_access_times s) = set (frames s)"
    by (simp_all add: lfu_wf_def)
  from assms(2) ns have "1 \<le> num_frames s" by simp
  from lfu_step_wf [OF wf this, of p t w] keys show ?thesis
    unfolding ns by blast
qed

theorem lfu_victim_and_admission_witness:
  "lfu_run (lfu_new 3) [(1, 1, False), (2, 3, False), (3, 4, False), (1, 5, True)]
     = Inr lfu_example
   \<and> (\<exists>s'. lfu_access_page lfu_example 4 6 False = Inr (s', True, Some 2)
         \<and> frames s' = [1, 3, 4]
         \<and> map_of (access_counts s') 4 = Some 1
         \<and> map_of (access_counts s') 2 = None
         \<and> map_of (access_counts s') 1 = Some 2
         \<and> map_of (lfu_access_times s') 4 = Some 6
         \<and> map_of (lfu_access_times s') 2 = None)"
proof -
  have run: "lfu_run (lfu_new 3) [(1, 1, False), (2, 3, False), (3, 4, False), (1, 5, True)]
     = Inr lfu_example"
    by (simp add: lfu_new_def lfu_example_def lfu_access_page_def Let_def)
  have a1: "map_sum id snd (lfu_access_page lfu_example 4 6 False) = Inr (True, Some 2)"
    by (simp add: lfu_access_page_def lfu_get_victim_def lfu_example_def Let_def)
  have three: "(1::int) \<le> 3" by simp
  from lfu_victim_and_admission [OF run three, of 4 6 False]
  obtain s' fault victim where
    r: "lfu_access_page lfu_example 4 6 False = Inr (s', fault, victim)" and
    ev: "4 \<notin> set (frames lfu_example) \<and> 3 \<le> int (length (frames lfu_example)) \<longrightarrow>
        (\<exists>v cv tv. victim = Some v \<and> v \<in> set (frames lfu_example) \<and>
           map_of (access_counts lfu_example) v = Some cv \<and>
           map_of (lfu_access_times lfu_example) v = Some tv \<and>
           (\<forall>q cq. map_of (access_counts lfu_example) q = Some cq \<longrightarrow> cv \<le> cq) \<and>
           (\<forall>q tq. map_of (access_counts lfu_example) q = Some cv \<longrightarrow>
              map_of (lfu_access_times lfu_example) q = Some tq \<longrightarrow> tv \<le> tq) \<and>
           frames s' = remove1 v (frames lfu_example) @ [4] \<and>
           map_of (access_counts s') =
             ((map_of (access_counts lfu_example))(v := None))(4 \<mapsto> 1) \<and>
           map_of (lfu_access_times s') =
             ((map_of (lfu_access_times lfu_example))(v := None))(4 \<mapsto> 6))"
    by blast
  from a1 r have fv: "fault = True" "victim = Some 2" by simp_all
  have "4 \<notin> set (frames lfu_example) \<and> 3 \<le> int (length (frames lfu_example))"
    by (simp add: lfu_example_def)
  with ev fv have
    f': "frames s' = remove1 2 (frames lfu_example) @ [4]" and
    c': "map_of (access_counts s') =
             ((map_of (access_counts lfu_example))(2 := None))(4 \<mapsto> 1)" and
    t': "map_of (lfu_access_times s') =
             ((map_of (lfu_access_times lfu_example))(2 := None))(4 \<mapsto> 6)"
    by auto
  have "frames s' = [1, 3, 4]
         \<and> map_of (access_counts s') 4 = Some 1
         \<and> map_of (access_counts s') 2 = None
         \<and> map_of (access_counts s') 1 = Some 2
         \<and> map_of (lfu_access_times s') 4 = Some 6
         \<and> map_of (lfu_access_times s') 2 = None"
    unfolding f' c' t' by (simp add: lfu_example_def)
  with run r fv show ?thesis by blast
qed

subsection \<open>Clock\<close>

lemma clock_within_agrees:
  "clock_get_victim_within k s = Some r \<Longrightarrow> clock_get_victim s = r"
proof (induction k arbitrary: s)
  case 0
  then show ?case by simp
next
  case (Suc k)
  show ?case
  proof (cases "py_index (length (frames s)) (clock_hand s)")
    case None
    with Suc.prems show ?thesis
      by (subst clock_get_victim.simps) simp
  next
    case i: (Some i)
    show ?thesis
    proof (cases "map_of (reference_bits s) (frames s ! i)")
      case None
      with Suc.prems i show ?thesis
        by (subst clock_get_victim.simps) simp
    next
      case b: (Some b)
      show ?thesis
      proof (cases "b = 0")
        case True
        with Suc.prems i b show ?thesis
          by (subst clock_get_victim.simps) simp
      next
        case False
        with Suc.prems i b have
          "clock_get_victim_within k
             (s\<lparr>reference_bits := AList.update (frames s ! i) 0 (reference_bits s),
                clock_hand := (clock_hand s + 1) mod int (length (frames s))\<rparr>) = Some r"
          by simp
        from Suc.IH [OF this] False i b show ?thesis
          by (subst clock_get_victim.simps) simp
      qed
    qed
  qed
qed

lemma clock_within_mono:
  "clock_get_victim_within k s = Some r \<Longrightarrow> k \<le> k' \<Longrightarrow>
   clock_get_victim_within k' s = Some r"
proof (induction k arbitrary: s k')
  case 0
  then show ?case by simp
next
  case (Suc k)
  from Suc.prems(2) obtain j where k': "k' = Suc j" and kj: "k \<le> j"
    by (cases k') auto
  show ?case
  proof (cases "py_index (length (frames s)) (clock_hand s)")
    case None
    with Suc.prems(1) show ?thesis by (simp add: k')
  next
    case i: (Some i)
    show ?thesis
    proof (cases "map_of (reference_bits s) (frames s ! i)")
      case None
      with Suc.prems(1) i show ?thesis by (simp add: k')
    next
      case b: (Some b)
      show ?thesis
      proof (cases "b = 0")
        case True
        with Suc.prems(1) i b show ?thesis by (simp add: k')
      next
        case False
        with Suc.prems(1) i b have
          "clock_get_victim_within k
             (s\<lparr>reference_bits := AList.update (frames s ! i) 0 (reference_bits s),
                clock_hand := (clock_hand s + 1) mod int (length (frames s))\<rparr>) = Some r"
          by simp
        from Suc.IH [OF this kj] False i b show ?thesis
          by (simp add: k')
      qed
    qed
  qed
qed

lemma clock_sweep:
  fixes s :: clock_state
  assumes "d = length (frames s) - k" and "k \<le> length (frames s)"
    and "0 < length (frames s)"
    and "0 \<le> clock_hand s" and "clock_hand s < int (length (frames s))"
    and "\<forall>p \<in> set (frames s). map_of (reference_bits s) p \<noteq> None"
    and "\<forall>j. 1 \<le> j \<and> j \<le> int k \<longrightarrow>
           map_of (reference_bits s)
             (frames s ! nat ((clock_hand s - j) mod int (length (frames s)))) = Some 0"
  shows "\<exists>v s'. clock_get_victim_within (Suc d) s = Some (Inr (v, s')) \<and> v \<in> set (frames s)"
  using assms
proof (induction d arbitrary: s k)
  case 0
  define n where "n = length (frames s)"
  define h where "h = clock_hand s"
  from 0 have kn: "k = n" by (simp add: n_def)
  from 0 have hr: "0 \<le> h" "h < int n" "0 < n" by (simp_all add: h_def n_def)
  then have idx: "py_index n h = Some (nat h)" by (simp add: py_index_def)
  have "(h - int n) mod int n = h" using hr by simp
  with "0.prems"(7) [rule_format, of "int n"] kn hr
  have z: "map_of (reference_bits s) (frames s ! nat h) = Some 0"
    by (simp add: n_def [symmetric] h_def [symmetric])
  from hr have "frames s ! nat h \<in> set (frames s)" by (simp add: n_def)
  with idx z show ?case
    by (simp add: n_def [symmetric] h_def [symmetric])
next
  case (Suc d)
  define n where "n = length (frames s)"
  define h where "h = clock_hand s"
  define pg where "pg = frames s ! nat h"
  from Suc.prems have hr: "0 \<le> h" "h < int n" "0 < n" by (simp_all add: h_def n_def)
  then have idx: "py_index n h = Some (nat h)" by (simp add: py_index_def)
  from hr have pin: "pg \<in> set (frames s)" by (simp add: n_def pg_def)
  with Suc.prems(6) obtain b where b: "map_of (reference_bits s) pg = Some b" by auto
  show ?case
  proof (cases "b = 0")
    case True
    with idx b pin show ?thesis
      by (simp add: n_def [symmetric] h_def [symmetric] pg_def [symmetric])
  next
    case False
    let ?s1 = "s\<lparr>reference_bits := AList.update pg 0 (reference_bits s),
                  clock_hand := (h + 1) mod int n\<rparr>"
    from Suc.prems(1,2) have k1: "Suc k \<le> n" and d1: "d = n - Suc k"
      by (simp_all add: n_def)
    have cleared: "map_of (reference_bits ?s1)
             (frames ?s1 ! nat ((clock_hand ?s1 - j) mod int (length (frames ?s1)))) = Some 0"
      if j: "1 \<le> j \<and> j \<le> int (Suc k)" for j
    proof (cases "j = 1")
      case True
      have "((h + 1) mod int n - 1) mod int n = h"
        using hr by (simp add: mod_diff_left_eq)
      then show ?thesis
        by (simp add: True n_def [symmetric] pg_def update_conv')
    next
      case False
      with j have j': "1 \<le> j - 1 \<and> j - 1 \<le> int k" by simp
      have e: "((h + 1) mod int n - j) mod int n = (h - (j - 1)) mod int n"
        by (simp add: mod_diff_left_eq algebra_simps)
      from Suc.prems(7) [rule_format, OF j']
      have "map_of (reference_bits s) (frames s ! nat ((h - (j - 1)) mod int n)) = Some 0"
        by (simp add: n_def h_def)
      then show ?thesis
        by (simp add: n_def [symmetric] e update_conv')
    qed
    have "\<exists>v s'. clock_get_victim_within (Suc d) ?s1 = Some (Inr (v, s')) \<and>
            v \<in> set (frames ?s1)"
    proof (rule Suc.IH [of ?s1 "Suc k"])
      show "d = length (frames ?s1) - Suc k" using d1 by (simp add: n_def)
      show "Suc k \<le> length (frames ?s1)" using k1 by (simp add: n_def)
      show "0 < length (frames ?s1)" using hr by (simp add: n_def)
      show "0 \<le> clock_hand ?s1" using hr by simp
      show "clock_hand ?s1 < int (length (frames ?s1))"
        using hr by (simp add: n_def [symmetric])
      show "\<forall>p \<in> set (frames ?s1). map_of (reference_bits ?s1) p \<noteq> None"
        using Suc.prems(6) by (simp add: update_conv')
      show "\<forall>j. 1 \<le> j \<and> j \<le> int (Suc k) \<longrightarrow>
           map_of (reference_bits ?s1)
             (frames ?s1 ! nat ((clock_hand ?s1 - j) mod int (length (frames ?s1)))) = Some 0"
        using cleared by blast
    qed
    with idx b False show ?thesis
      by (simp add: n_def [symmetric] h_def [symmetric] pg_def [symmetric])
  qed
qed

text \<open>
  C10: in a Clock state whose resident list is not empty, whose hand is an index into it
  and whose resident pages all have a reference bit, \<open>get_victim\<close> returns a resident
  page, and it does so within \<open>2 * len(frames)\<close> iterations of its loop.
\<close>

theorem clock_get_victim_terminates:
  assumes "frames s \<noteq> []"
    and "0 \<le> clock_hand s" and "clock_hand s < int (length (frames s))"
    and "\<forall>p \<in> set (frames s). map_of (reference_bits s) p \<noteq> None"
  shows "\<exists>v s'. clock_get_victim_within (2 * length (frames s)) s = Some (Inr (v, s')) \<and>
           clock_get_victim s = Inr (v, s') \<and> v \<in> set (frames s)"
proof -
  from assms(1) have n: "0 < length (frames s)" by simp
  have "\<exists>v s'. clock_get_victim_within (Suc (length (frames s))) s = Some (Inr (v, s')) \<and>
          v \<in> set (frames s)"
    by (rule clock_sweep [of _ s 0]) (use assms n in auto)
  then obtain v s' where
    w: "clock_get_victim_within (Suc (length (frames s))) s = Some (Inr (v, s'))"
    and v: "v \<in> set (frames s)"
    by blast
  from n have "Suc (length (frames s)) \<le> 2 * length (frames s)" by arith
  from clock_within_mono [OF w this] clock_within_agrees [OF w] v show ?thesis
    by blast
qed

theorem clock_get_victim_terminates_witness:
  "\<exists>s'. clock_get_victim_within 6 clock_example = Some (Inr (1, s')) \<and>
         clock_get_victim clock_example = Inr (1, s')"
proof -
  have h: "frames clock_example \<noteq> []" "0 \<le> clock_hand clock_example"
    "clock_hand clock_example < int (length (frames clock_example))"
    "\<forall>p \<in> set (frames clock_example). map_of (reference_bits clock_example) p \<noteq> None"
    by (simp_all add: clock_example_def)
  have len: "2 * length (frames clock_example) = 6"
    by (simp add: clock_example_def)
  from clock_get_victim_terminates [OF h] obtain v s' where
    w: "clock_get_victim_within 6 clock_example = Some (Inr (v, s'))" and
    g: "clock_get_victim clock_example = Inr (v, s')"
    unfolding len by blast
  have "map_option (map_sum id fst) (clock_get_victim_within 6 clock_example) = Some (Inr 1)"
    by code_simp
  with w have "v = 1" by simp
  with w g show ?thesis by blast
qed

subsection \<open>FIFO on scenario A\<close>

lemma update_access_in_range:
  "0 \<le> p \<Longrightarrow> p < int (length (entries pt)) \<Longrightarrow> \<exists>pt'. update_access pt p t w = Inr pt'"
  by (simp add: update_access_def py_index_def Let_def)

lemma set_frame_in_range:
  "0 \<le> p \<Longrightarrow> p < int (length (entries pt)) \<Longrightarrow> \<exists>pt'. set_frame pt p f = Inr pt'"
  by (simp add: set_frame_def py_index_def)

lemma pt_invalidate_in_range:
  "0 \<le> p \<Longrightarrow> p < int (length (entries pt)) \<Longrightarrow> \<exists>pt'. pt_invalidate pt p = Inr pt'"
  by (simp add: pt_invalidate_def py_index_def)

lemma tlb_insert_succeeds:
  "1 \<le> tlb_size t \<Longrightarrow> \<exists>t'. tlb_insert t p f = Inr t' \<and> tlb_size t' = tlb_size t"
  by (cases "cache t") (auto simp: tlb_insert_def split: option.splits)

lemma fifo_access_page_fault:
  assumes "p \<notin> set q" and "1 \<le> n" and "int (length q) \<le> n"
  shows "fifo_access_page \<lparr>num_frames = n, frames = q, queue = q\<rparr> p t w =
           Inr (\<lparr>num_frames = n, frames = (if n \<le> int (length q) then tl q @ [p] else q @ [p]),
                  queue = (if n \<le> int (length q) then tl q @ [p] else q @ [p])\<rparr>,
                True, if n \<le> int (length q) then Some (hd q) else None)"
proof (cases q)
  case Nil
  with assms show ?thesis by (simp add: fifo_access_page_def fifo_get_victim_def)
next
  case (Cons a q')
  with assms show ?thesis by (simp add: fifo_access_page_def fifo_get_victim_def)
qed


lemma tlb_invalidate_size: "tlb_size (tlb_invalidate t v) = tlb_size t"
  by (simp add: tlb_invalidate_def)

lemma fifo_handle_page_fault:
  assumes R: "fifo_rel s n q" and p0: "0 \<le> p" and p1: "p < sim_num_pages s"
    and pn: "p \<notin> set q"
  shows "\<exists>s2 f. handle_page_fault s p w = Inr (s2, f) \<and>
           algorithm s2 =
             FIFO \<lparr>num_frames = n,
                   frames = (if n \<le> int (length q) then tl q @ [p] else q @ [p]),
                   queue = (if n \<le> int (length q) then tl q @ [p] else q @ [p])\<rparr> \<and>
           int (length (if n \<le> int (length q) then tl q @ [p] else q @ [p])) +
             int (length (free_frames s2)) = n \<and>
           tlb_size (tlb s2) = tlb_size (tlb s) \<and> page_faults s2 = page_faults s \<and>
           current_time s2 = current_time s"
proof -
  from R have inv: "sim_inv s"
    and alg: "algorithm s = FIFO \<lparr>num_frames = n, frames = q, queue = q\<rparr>"
    and n1: "1 \<le> n" and sum: "int (length q) + int (length (free_frames s)) = n"
    by (auto simp: fifo_rel_def)
  from inv have c: "consistent (page_table s) (cache (tlb s)) (frames_of (algorithm s))
                      (page_to_frame s)"
    and len: "length (entries (page_table s)) = nat (sim_num_pages s)"
    by (auto simp: sim_inv_def)
  from c alg have fr_res: "\<And>x. (x \<in> set q) = resident (page_table s) x"
    and res_m: "\<And>x. resident (page_table s) x \<Longrightarrow>
        frame_at (page_table s) x \<noteq> None \<and> page_to_frame s x = frame_at (page_table s) x"
    unfolding consistent_def by auto
  from p0 p1 len have pr: "p < int (length (entries (page_table s)))" by simp
  from sum have le: "int (length q) \<le> n" by simp
  note ap = fifo_access_page_fault [OF pn n1 le, of "current_time s" w]
  show ?thesis
  proof (cases "n \<le> int (length q)")
    case True
    with n1 obtain v q' where q: "q = v # q'" by (cases q) auto
    then have "resident (page_table s) v" using fr_res [of v] by simp
    then have v0: "0 \<le> v" and v1: "v < int (length (entries (page_table s)))"
      and "page_to_frame s v \<noteq> None"
      using res_m [of v] by (auto simp: resident_def)
    then obtain f where mv: "page_to_frame s v = Some f" by auto
    from pt_invalidate_in_range [OF v0 v1] obtain pt1 where
      pi: "pt_invalidate (page_table s) v = Inr pt1" by blast
    from pt_invalidate_length [OF pi] pr have "p < int (length (entries pt1))" by simp
    from set_frame_in_range [OF p0 this] obtain pt2 where
      sf: "set_frame pt1 p (Some f) = Inr pt2" by blast
    from True sum ap mv pi sf show ?thesis
      by (simp add: handle_page_fault_def alg q tlb_invalidate_size)
  next
    case False
    with sum obtain x rest where ff: "free_frames s = x # rest"
      by (cases "free_frames s") auto
    from set_frame_in_range [OF p0 pr] obtain pt2 where
      sf: "set_frame (page_table s) p (Some x) = Inr pt2" by blast
    from False sum ap ff sf show ?thesis
      by (simp add: handle_page_fault_def alg)
  qed
qed


lemma fifo_translate:
  assumes R: "fifo_rel s n q" and p0: "0 \<le> p" and p1: "p < sim_num_pages s"
  shows "\<exists>s' pa hit.
           translate_address s (p * page_size s) w = Inr (s', pa, p \<notin> set q, hit) \<and>
           fifo_rel s' n
             (if p \<in> set q then q
              else if n \<le> int (length q) then tl q @ [p] else q @ [p]) \<and>
           page_faults s' = page_faults s + (if p \<in> set q then 0 else 1) \<and>
           sim_num_pages s' = sim_num_pages s \<and> page_size s' = page_size s"
proof -
  define ps where "ps = page_size s"
  define va where "va = p * ps"
  from R have inv: "sim_inv s"
    and alg: "algorithm s = FIFO \<lparr>num_frames = n, frames = q, queue = q\<rparr>"
    and n1: "1 \<le> n" and sum: "int (length q) + int (length (free_frames s)) = n"
    and ts: "1 \<le> tlb_size (tlb s)" and ps0: "ps \<noteq> 0"
    by (auto simp: fifo_rel_def ps_def)
  have pe: "va div ps = p" and off: "va mod ps = 0"
    using ps0 by (simp_all add: va_def)
  from inv have c: "consistent (page_table s) (cache (tlb s)) (frames_of (algorithm s))
                      (page_to_frame s)"
    and len: "length (entries (page_table s)) = nat (sim_num_pages s)"
    by (auto simp: sim_inv_def)
  from c alg have e: "\<And>x g. (x, g) \<in> set (cache (tlb s)) \<Longrightarrow>
        resident (page_table s) x \<and> g \<noteq> None \<and> frame_at (page_table s) x = g"
    and fr_res: "\<And>x. (x \<in> set q) = resident (page_table s) x"
    and res_m: "\<And>x. resident (page_table s) x \<Longrightarrow>
        frame_at (page_table s) x \<noteq> None \<and> page_to_frame s x = frame_at (page_table s) x"
    unfolding consistent_def by auto
  from p0 p1 len have pr: "p < int (length (entries (page_table s)))" by simp
  have range: "0 \<le> va div page_size s" "va div page_size s < sim_num_pages s"
    using p0 p1 pe by (simp_all add: ps_def)
  have "\<exists>s' pa hit. translate_address s va w = Inr (s', pa, p \<notin> set q, hit) \<and>
          algorithm s' = FIFO \<lparr>num_frames = n,
             frames = (if p \<in> set q then q
                       else if n \<le> int (length q) then tl q @ [p] else q @ [p]),
             queue = (if p \<in> set q then q
                      else if n \<le> int (length q) then tl q @ [p] else q @ [p])\<rparr> \<and>
          int (length (if p \<in> set q then q
                       else if n \<le> int (length q) then tl q @ [p] else q @ [p])) +
             int (length (free_frames s')) = n \<and>
          tlb_size (tlb s') = tlb_size (tlb s) \<and>
          page_faults s' = page_faults s + (if p \<in> set q then 0 else 1)"
  proof (cases "map_of (cache (tlb s)) p")
    case (Some fo)
    from e [OF map_of_SomeD [OF Some]] obtain f where
      fo: "fo = Some f" and rp: "resident (page_table s) p"
      by auto
    from update_access_in_range [OF p0 pr] obtain pt where
      ua: "update_access (page_table s) p (current_time s + 1) w = Inr pt" by blast
    from Some fo rp ua ps0 alg sum show ?thesis
      by (auto simp: translate_address_def Let_def tlb_lookup_def ps_def [symmetric] pe
            fr_res)
  next
    case None
    show ?thesis
    proof (cases "resident (page_table s) p")
      case True
      from res_m [OF True] obtain f where
        fa: "frame_at (page_table s) p = Some f" by auto
      from tlb_insert_succeeds [of "(tlb s)\<lparr>misses := misses (tlb s) + 1\<rparr>" p "Some f"] ts
      obtain t2 where
        ti: "tlb_insert ((tlb s)\<lparr>misses := misses (tlb s) + 1\<rparr>) p (Some f) = Inr t2"
        and t2: "tlb_size t2 = tlb_size (tlb s)"
        by auto
      from update_access_in_range [OF p0 pr] obtain pt where
        ua: "update_access (page_table s) p (current_time s + 1) w = Inr pt" by blast
      from None True fa ti t2 ua ps0 alg sum p0 pr show ?thesis
        by (auto simp: translate_address_def Let_def tlb_lookup_def ps_def [symmetric] pe
              fr_res is_valid_in_range get_frame_number_resident)
    next
      case False
      let ?s1 = "s\<lparr>memory_accesses := memory_accesses s + 1,
                 current_time := current_time s + 1,
                 tlb := (tlb s)\<lparr>misses := misses (tlb s) + 1\<rparr>,
                 page_faults := page_faults s + 1\<rparr>"
      have R1: "fifo_rel ?s1 n q"
        using R by (auto simp: fifo_rel_def sim_inv_def)
      from False have pn: "p \<notin> set q" by (simp add: fr_res)
      from fifo_handle_page_fault [OF R1 p0 _ pn, of w] p1
      obtain s2 f where
        h: "handle_page_fault ?s1 p w = Inr (s2, f)" and
        a2: "algorithm s2 =
             FIFO \<lparr>num_frames = n,
                   frames = (if n \<le> int (length q) then tl q @ [p] else q @ [p]),
                   queue = (if n \<le> int (length q) then tl q @ [p] else q @ [p])\<rparr>" and
        l2: "int (length (if n \<le> int (length q) then tl q @ [p] else q @ [p])) +
             int (length (free_frames s2)) = n" and
        t2: "tlb_size (tlb s2) = tlb_size (tlb s)" and
        f2: "page_faults s2 = page_faults s + 1" and
        c2: "current_time s2 = current_time s + 1"
        by auto
      from handle_page_fault_shape [OF h] pr
      have pr2: "p < int (length (entries (page_table s2)))" by simp
      from tlb_insert_succeeds [of "tlb s2" p "Some f"] ts t2 obtain t3 where
        ti: "tlb_insert (tlb s2) p (Some f) = Inr t3" and t3: "tlb_size t3 = tlb_size (tlb s)"
        by auto
      from update_access_in_range [OF p0 pr2] obtain pt where
        ua: "update_access (page_table s2) p (current_time s + 1) w = Inr pt" by blast
      from None False h a2 l2 f2 c2 ti t3 ua ps0 p0 pr pn show ?thesis
        by (auto simp: translate_address_def Let_def tlb_lookup_def ps_def [symmetric] pe
              is_valid_in_range)
    qed
  qed
  then obtain s' pa hit where
    t: "translate_address s va w = Inr (s', pa, p \<notin> set q, hit)" and
    a': "algorithm s' = FIFO \<lparr>num_frames = n,
             frames = (if p \<in> set q then q
                       else if n \<le> int (length q) then tl q @ [p] else q @ [p]),
             queue = (if p \<in> set q then q
                      else if n \<le> int (length q) then tl q @ [p] else q @ [p])\<rparr>" and
    l': "int (length (if p \<in> set q then q
                       else if n \<le> int (length q) then tl q @ [p] else q @ [p])) +
             int (length (free_frames s')) = n" and
    t': "tlb_size (tlb s') = tlb_size (tlb s)" and
    f': "page_faults s' = page_faults s + (if p \<in> set q then 0 else 1)"
    by blast
  from translate_address_inv [OF t inv range]
  have i': "sim_inv s'" and n': "sim_num_pages s' = sim_num_pages s"
    and p': "page_size s' = page_size s"
    by auto
  from i' a' l' t' n1 ts ps0 p' have "fifo_rel s' n
             (if p \<in> set q then q
              else if n \<le> int (length q) then tl q @ [p] else q @ [p])"
    unfolding fifo_rel_def ps_def by simp
  with t f' n' p' show ?thesis
    unfolding va_def ps_def by blast
qed

lemma fifo_run_trace:
  "fifo_rel s n q \<Longrightarrow> \<forall>p \<in> set tr. 0 \<le> p \<and> p < sim_num_pages s \<Longrightarrow>
   \<exists>s'. run_trace_from i s tr ws = Inr s' \<and>
         page_faults s' = page_faults s + fifo_faults n q tr"
proof (induction tr arbitrary: s q i)
  case Nil
  then show ?case by simp
next
  case (Cons p tr)
  from Cons.prems(2) have p: "0 \<le> p" "p < sim_num_pages s" by auto
  from fifo_translate [OF Cons.prems(1) p, of "i \<in> ws"] obtain s1 pa hit where
    t: "translate_address s (p * page_size s) (i \<in> ws) = Inr (s1, pa, p \<notin> set q, hit)" and
    R1: "fifo_rel s1 n
             (if p \<in> set q then q
              else if n \<le> int (length q) then tl q @ [p] else q @ [p])" and
    f1: "page_faults s1 = page_faults s + (if p \<in> set q then 0 else 1)" and
    n1: "sim_num_pages s1 = sim_num_pages s"
    by blast
  from Cons.prems(2) n1 have r: "\<forall>p \<in> set tr. 0 \<le> p \<and> p < sim_num_pages s1" by simp
  from Cons.IH [OF R1 r, of "Suc i"] obtain s' where
    "run_trace_from (Suc i) s1 tr ws = Inr s'" and
    "page_faults s' = page_faults s1 +
       fifo_faults n (if p \<in> set q then q
              else if n \<le> int (length q) then tl q @ [p] else q @ [p]) tr"
    by blast
  with t f1 show ?case by simp
qed

text \<open>
  C7: a simulator with the FIFO policy and 3 frames, run over the reference string
  1,2,3,4,1,2,5,1,2,3,4,5, reports exactly 9 page faults. This holds for every
  configuration in which the run is possible: at least 6 pages (the trace names page 5),
  a non-zero page size and a TLB of at least one entry.
\<close>

theorem fifo_scenario_A:
  assumes "6 \<le> n_pages" and "p_size \<noteq> 0" and "1 \<le> t_size"
  shows "fault_count n_pages 3 p_size t_size ''FIFO'' None [1,2,3,4,1,2,5,1,2,3,4,5] = Inr 9"
proof -
  obtain s where i: "init n_pages 3 p_size t_size ''FIFO'' None = Inr s"
    by (simp add: init_def make_algorithm_def)
  from init_inv [OF i] have inv: "sim_inv s" and np: "sim_num_pages s = n_pages" by auto
  from i assms inv have R: "fifo_rel s 3 []"
    by (auto simp: fifo_rel_def init_def make_algorithm_def new_tlb_def)
  from i have pf: "page_faults s = 0"
    by (auto simp: init_def make_algorithm_def)
  have "\<forall>p \<in> set [1,2,3,4,1,2,5,1,2,3,4,5]. 0 \<le> p \<and> p < sim_num_pages s"
    using assms(1) np by simp
  from fifo_run_trace [OF R this, of 0 "{}"] obtain s' where
    "run_trace_from 0 s [1,2,3,4,1,2,5,1,2,3,4,5] {} = Inr s'" and
    "page_faults s' = page_faults s + fifo_faults 3 [] [1,2,3,4,1,2,5,1,2,3,4,5]"
    by blast
  with i pf show ?thesis
    by (simp add: fault_count_def run_trace_def)
qed


theorem fifo_scenario_A_witness:
  "fault_count 10 3 4096 4 ''FIFO'' None [1,2,3,4,1,2,5,1,2,3,4,5] = Inr 9"
  using fifo_scenario_A [of 10 4096 4] by simp

end
